theory Spec2Isabelle
  imports Main
begin

section \<open>Data model of Minesweeper.py\<close>

text \<open>
  The enumerator \<^verbatim>\<open>Piece\<close> and the dictionary stored for every space of the board
  (\<^verbatim>\<open>{"type": Piece.HIDDEN, "count": 0, "flag": False}\<close>). A space of type
  \<open>HIDDEN\<close> is a hidden space without a mine, \<open>EMPTY\<close> is a revealed space and
  \<open>MINE\<close> is a (never revealed) mine.
\<close>

datatype Piece = HIDDEN | EMPTY | MINE

record space =
  type :: Piece
  count :: int
  flag :: bool

text \<open>
  The program keeps no variable for the state of the game: a loss is the call
  \<^verbatim>\<open>GameOver(x,y)\<close> and a win is the call \<^verbatim>\<open>GameWin()\<close>, both of which open a
  modal prompt. The field \<open>game_state\<close> records the last such call.
\<close>

datatype game_state = InProgress | Won | Lost

datatype error = IndexError | ValueError | RecursionError

text \<open>The module-level variables, with Python's unbounded integers.\<close>

record game =
  BOARD_WIDTH :: int
  BOARD_HEIGHT :: int
  TOTAL_MINES :: int
  PRINT_DEBUG_INFO :: bool
  spaces :: "space list list"
  pieces_left :: int
  babymode :: bool
  game_state :: game_state

subsection \<open>Exceptions and Python list indexing\<close>

definition bind :: "'x + 'a \<Rightarrow> ('a \<Rightarrow> 'x + 'b) \<Rightarrow> 'x + 'b" where
  "bind r k = (case r of Inl e \<Rightarrow> Inl e | Inr v \<Rightarrow> k v)"

lemma bind_cong [fundef_cong]:
  "m = m' \<Longrightarrow> (\<And>v. m' = Inr v \<Longrightarrow> f v = f' v) \<Longrightarrow> bind m f = bind m' f'"
  by (auto simp: bind_def split: sum.splits)

text \<open>\<^verbatim>\<open>xs[i]\<close>: a negative index counts from the end, an index out of range raises.\<close>

definition py_index :: "'a list \<Rightarrow> int \<Rightarrow> error + 'a" where
  "py_index xs i =
     (if 0 \<le> i \<and> i < int (length xs) then Inr (xs ! nat i)
      else if i < 0 \<and> - int (length xs) \<le> i then Inr (xs ! nat (int (length xs) + i))
      else Inl IndexError)"

text \<open>\<^verbatim>\<open>piece = spaces[x][y]\<close>\<close>

definition get_space :: "game \<Rightarrow> int \<Rightarrow> int \<Rightarrow> error + space" where
  "get_space g x y = bind (py_index (spaces g) x) (\<lambda>col. py_index col y)"

text \<open>
  The assignments to the fields of \<^verbatim>\<open>piece\<close> mutate the dictionary stored at
  \<^verbatim>\<open>spaces[x][y]\<close>. Every such assignment follows a successful read of that space at
  coordinates that are not negative.
\<close>

definition put_space :: "game \<Rightarrow> int \<Rightarrow> int \<Rightarrow> space \<Rightarrow> game" where
  "put_space g x y p =
     g\<lparr>spaces := (spaces g)[nat x := (spaces g ! nat x)[nat y := p]]\<rparr>"

section \<open>The operations\<close>

text \<open>\<^verbatim>\<open>ClearBoard\<close> returns a fresh grid of \<open>BOARD_WIDTH\<close> columns of \<open>BOARD_HEIGHT\<close>
  hidden spaces (the destruction of the old frames is not modelled).\<close>

definition ClearBoard :: "game \<Rightarrow> space list list" where
  "ClearBoard g =
     replicate (nat (BOARD_WIDTH g))
       (replicate (nat (BOARD_HEIGHT g)) \<lparr>type = HIDDEN, count = 0, flag = False\<rparr>)"

definition SetBabyMode :: "game \<Rightarrow> game" where
  "SetBabyMode g = g\<lparr>babymode := True\<rparr>"

definition GameOver :: "game \<Rightarrow> int \<Rightarrow> int \<Rightarrow> game" where
  "GameOver g x y = g\<lparr>game_state := Lost\<rparr>"

definition GameWin :: "game \<Rightarrow> game" where
  "GameWin g = g\<lparr>game_state := Won\<rparr>"

text \<open>
  Some operations change the globals before they raise. Their result is the game
  they return, or the exception they raise together with the game at that moment, which
  is the game the program goes on with (a callback of the window toolkit that raises is
  reported and the main loop continues). An exception of a read happens before any
  change.
\<close>

definition raised :: "game \<Rightarrow> error + 'a \<Rightarrow> (error \<times> game) + 'a" where
  "raised g m = (case m of Inl e \<Rightarrow> Inl (e, g) | Inr v \<Rightarrow> Inr v)"

text \<open>
  \<^verbatim>\<open>RevealEmpty(x,y)\<close>, with its eight recursive calls in the order of the source.
  The interpreter limits the depth of the call stack: \<open>d\<close> is the number of calls of
  \<^verbatim>\<open>RevealEmpty\<close> that it still admits below the present one. With \<open>d = 0\<close> the
  first recursive call raises \<^verbatim>\<open>RecursionError\<close>, after the space is set to
  \<open>EMPTY\<close> and before \<open>pieces_left\<close> is decremented; the frames above are
  unwound without running their remaining statements. (The calls into the window
  toolkit are not modelled.)
\<close>

fun RevealEmpty :: "nat \<Rightarrow> game \<Rightarrow> int \<Rightarrow> int \<Rightarrow> (error \<times> game) + game" where
  "RevealEmpty d g x y =
     (if x \<ge> 0 \<and> x < BOARD_WIDTH g \<and> y \<ge> 0 \<and> y < BOARD_HEIGHT g then
        bind (raised g (get_space g x y)) (\<lambda>piece.
          if type piece = HIDDEN then
            let g1 = put_space g x y (piece\<lparr>flag := False, type := EMPTY\<rparr>) in
            bind (if count piece > 0 then Inr g1
                  else
                    (case d of
                       0 \<Rightarrow> Inl (RecursionError, g1)
                     | Suc d' \<Rightarrow>
                         bind (RevealEmpty d' g1 (x - 1) (y - 1)) (\<lambda>g2.
                         bind (RevealEmpty d' g2 (x - 1) y) (\<lambda>g3.
                         bind (RevealEmpty d' g3 (x - 1) (y + 1)) (\<lambda>g4.
                         bind (RevealEmpty d' g4 x (y - 1)) (\<lambda>g5.
                         bind (RevealEmpty d' g5 x (y + 1)) (\<lambda>g6.
                         bind (RevealEmpty d' g6 (x + 1) (y - 1)) (\<lambda>g7.
                         bind (RevealEmpty d' g7 (x + 1) y) (\<lambda>g8.
                         RevealEmpty d' g8 (x + 1) (y + 1))))))))))
              (\<lambda>g9.
                let g10 = g9\<lparr>pieces_left := pieces_left g9 - 1\<rparr> in
                Inr (if pieces_left g10 \<le> 0 then GameWin g10 else g10))
          else Inr g)
      else Inr g)"

declare RevealEmpty.simps [simp del]

text \<open>
  \<^verbatim>\<open>ClickSpace(event)\<close> and \<^verbatim>\<open>RightClickSpace(event)\<close>; \<open>x\<close> and \<open>y\<close> are the grid
  column and row of the frame that received the click, and \<open>d\<close> is the depth that the
  interpreter leaves to \<^verbatim>\<open>RevealEmpty\<close>.
\<close>

definition ClickSpace :: "nat \<Rightarrow> game \<Rightarrow> int \<Rightarrow> int \<Rightarrow> (error \<times> game) + game" where
  "ClickSpace d g x y =
     bind (raised g (get_space g x y)) (\<lambda>piece.
       if flag piece then Inr g
       else if type piece = MINE then Inr (GameOver g x y)
       else if type piece = HIDDEN then RevealEmpty d g x y
       else Inr g)"

definition RightClickSpace :: "game \<Rightarrow> int \<Rightarrow> int \<Rightarrow> error + game" where
  "RightClickSpace g x y =
     bind (get_space g x y) (\<lambda>piece.
       if type piece = MINE \<or> type piece = HIDDEN then
         (if flag piece then Inr (put_space g x y (piece\<lparr>flag := False\<rparr>))
          else Inr (put_space g x y (piece\<lparr>flag := True\<rparr>)))
       else Inr g)"

definition AddCount :: "game \<Rightarrow> int \<Rightarrow> int \<Rightarrow> error + game" where
  "AddCount g x y =
     (if x \<ge> 0 \<and> x < BOARD_WIDTH g \<and> y \<ge> 0 \<and> y < BOARD_HEIGHT g then
        bind (get_space g x y) (\<lambda>piece.
          Inr (put_space g x y (piece\<lparr>count := count piece + 1\<rparr>)))
      else Inr g)"

subsection \<open>Board generation\<close>

text \<open>
  The random source is a list of integers, one for every call of \<^verbatim>\<open>randint\<close>:
  \<^verbatim>\<open>randint(a, b)\<close> raises \<^verbatim>\<open>ValueError\<close> on an empty range and otherwise maps the
  next integer into \<open>a..b\<close> (every value of the range is the image of some integer).
  The result is \<open>None\<close> when the list is used up: the loops below ask for more
  random numbers than the list has.
\<close>

definition rbind ::
  "(error + 'a) option \<Rightarrow> ('a \<Rightarrow> (error + 'b) option) \<Rightarrow> (error + 'b) option" where
  "rbind m f = (case m of None \<Rightarrow> None | Some (Inl e) \<Rightarrow> Some (Inl e) | Some (Inr v) \<Rightarrow> f v)"

lemma rbind_cong [fundef_cong]:
  "m = m' \<Longrightarrow> (\<And>v. m' = Some (Inr v) \<Longrightarrow> f v = f' v) \<Longrightarrow> rbind m f = rbind m' f'"
  by (auto simp: rbind_def split: option.splits sum.splits)

definition randint :: "int \<Rightarrow> int \<Rightarrow> int list \<Rightarrow> (error + int \<times> int list) option" where
  "randint a b rs =
     (if b < a then Some (Inl ValueError)
      else case rs of [] \<Rightarrow> None | r # rs' \<Rightarrow> Some (Inr (a + r mod (b - a + 1), rs')))"

lemma randint_shorter: "randint a b rs = Some (Inr (v, rs')) \<Longrightarrow> length rs' < length rs"
  by (auto simp: randint_def split: if_splits list.splits)

text \<open>The loop \<^verbatim>\<open>while spaces[x][y]["type"] == Piece.MINE\<close> of \<^verbatim>\<open>GenerateBoard\<close>.\<close>

function while_mine ::
  "game \<Rightarrow> int \<Rightarrow> int \<Rightarrow> int list \<Rightarrow> (error + int \<times> int \<times> int list) option" where
  "while_mine g x y rs =
     rbind (Some (get_space g x y)) (\<lambda>piece.
       if type piece = MINE then
         rbind (randint 0 (BOARD_HEIGHT g - 1) rs) (\<lambda>(y', rs1).
         rbind (randint 0 (BOARD_WIDTH g - 1) rs1) (\<lambda>(x', rs2).
         while_mine g x' y' rs2))
       else Some (Inr (x, y, rs)))"
  by pat_completeness auto
termination
proof (relation "measure (\<lambda>(g, x, y, rs). length rs)", goal_cases)
  case 1
  show ?case by simp
next
  case (2 g x y rs piece p y' rs1 q x' rs2)
  then show ?case
    using randint_shorter [of 0 "BOARD_HEIGHT g - 1" rs y' rs1]
      randint_shorter [of 0 "BOARD_WIDTH g - 1" rs1 x' rs2]
    by simp
qed

text \<open>The body of the loop \<^verbatim>\<open>for i in range(TOTAL_MINES)\<close> after the space is chosen.\<close>

definition place_mine :: "game \<Rightarrow> int \<Rightarrow> int \<Rightarrow> error + game" where
  "place_mine g x y =
     bind (get_space g x y) (\<lambda>piece.
     let g1 = put_space g x y (piece\<lparr>type := MINE\<rparr>) in
     bind (AddCount g1 (x - 1) (y - 1)) (\<lambda>g2.
     bind (AddCount g2 (x - 1) y) (\<lambda>g3.
     bind (AddCount g3 (x - 1) (y + 1)) (\<lambda>g4.
     bind (AddCount g4 x (y - 1)) (\<lambda>g5.
     bind (AddCount g5 x (y + 1)) (\<lambda>g6.
     bind (AddCount g6 (x + 1) (y - 1)) (\<lambda>g7.
     bind (AddCount g7 (x + 1) y) (\<lambda>g8.
     AddCount g8 (x + 1) (y + 1)))))))))"

text \<open>\<^verbatim>\<open>for i in range(TOTAL_MINES)\<close>, with the number of iterations left.\<close>

fun place_mines :: "nat \<Rightarrow> game \<Rightarrow> int list \<Rightarrow> (error + game) option" where
  "place_mines 0 g rs = Some (Inr g)"
| "place_mines (Suc n) g rs =
     rbind (randint 0 (BOARD_HEIGHT g - 1) rs) (\<lambda>(y, rs1).
     rbind (randint 0 (BOARD_WIDTH g - 1) rs1) (\<lambda>(x, rs2).
     rbind (while_mine g x y rs2) (\<lambda>(x, y, rs3).
     rbind (Some (place_mine g x y)) (\<lambda>g'.
     place_mines n g' rs3))))"

text \<open>\<^verbatim>\<open>GenerateBoard()\<close> (the creation of the frames is not modelled).\<close>

definition GenerateBoard :: "game \<Rightarrow> int list \<Rightarrow> (error + game) option" where
  "GenerateBoard g rs =
     place_mines (nat (TOTAL_MINES g))
       (g\<lparr>spaces := ClearBoard g,
          pieces_left := (BOARD_HEIGHT g * BOARD_WIDTH g) - TOTAL_MINES g,
          babymode := False\<rparr>) rs"

text \<open>\<^verbatim>\<open>NewGame()\<close>; the three arguments are the values read from the spin boxes.\<close>

definition NewGame :: "game \<Rightarrow> int \<Rightarrow> int \<Rightarrow> int \<Rightarrow> int list \<Rightarrow> (error + game) option" where
  "NewGame g new_w new_h new_m rs =
     (let g1 = g\<lparr>BOARD_WIDTH := new_w, BOARD_HEIGHT := new_h\<rparr>;
          g2 = (if new_m \<le> new_w * new_h then g1\<lparr>TOTAL_MINES := new_m\<rparr>
                else if PRINT_DEBUG_INFO g1 then g1\<lparr>TOTAL_MINES := new_m * new_h\<rparr>
                else g1)
      in GenerateBoard g2 rs)"

text \<open>
  The module-level code that reads the arguments of the program (already parsed; an
  absent argument is \<open>None\<close>) and sets the global variables before the first
  \<^verbatim>\<open>GenerateBoard()\<close>.
\<close>

definition startup :: "int option \<Rightarrow> int option \<Rightarrow> int option \<Rightarrow> bool \<Rightarrow> game" where
  "startup arg1 arg2 arg3 debug =
     (let w = (case arg1 of Some a \<Rightarrow> a | None \<Rightarrow> 20);
          h = (case arg2 of Some a \<Rightarrow> a | None \<Rightarrow> 20);
          m = (case arg3 of Some a \<Rightarrow> a | None \<Rightarrow> 60);
          boardsize = h * w;
          m' = (if m > boardsize then boardsize else m);
          g = \<lparr>BOARD_WIDTH = w, BOARD_HEIGHT = h, TOTAL_MINES = m',
               PRINT_DEBUG_INFO = debug, spaces = [],
               pieces_left = (h * w) - m', babymode = False, game_state = InProgress\<rparr>
      in g\<lparr>spaces := ClearBoard g\<rparr>)"

section \<open>Reading a space\<close>

lemma bind_Inr_iff: "bind m f = Inr r \<longleftrightarrow> (\<exists>v. m = Inr v \<and> f v = Inr r)"
  by (auto simp: bind_def split: sum.splits)

lemma py_index_Inr_nonneg:
  "0 \<le> i \<Longrightarrow> py_index xs i = Inr v \<longleftrightarrow> nat i < length xs \<and> v = xs ! nat i"
  by (auto simp: py_index_def)

lemma get_space_Inr_nonneg:
  "0 \<le> x \<Longrightarrow> 0 \<le> y \<Longrightarrow>
   get_space g x y = Inr p \<longleftrightarrow>
     nat x < length (spaces g) \<and> nat y < length (spaces g ! nat x) \<and> p = spaces g ! nat x ! nat y"
  by (auto simp: get_space_def bind_Inr_iff py_index_Inr_nonneg)

section \<open>What the flood fill reveals\<close>

definition neighbours :: "int \<Rightarrow> int \<Rightarrow> (int \<times> int) list" where
  "neighbours x y =
     [(x - 1, y - 1), (x - 1, y), (x - 1, y + 1), (x, y - 1), (x, y + 1),
      (x + 1, y - 1), (x + 1, y), (x + 1, y + 1)]"

inductive_set flood :: "(int \<times> int) set \<Rightarrow> (int \<times> int \<Rightarrow> bool) \<Rightarrow> int \<times> int \<Rightarrow> (int \<times> int) set"
  for Hs :: "(int \<times> int) set" and Z :: "int \<times> int \<Rightarrow> bool" and c0 :: "int \<times> int" where
  start: "c0 \<in> Hs \<Longrightarrow> c0 \<in> flood Hs Z c0"
| step: "c \<in> flood Hs Z c0 \<Longrightarrow> Z c \<Longrightarrow> n \<in> set (neighbours (fst c) (snd c)) \<Longrightarrow> n \<in> Hs
         \<Longrightarrow> n \<in> flood Hs Z c0"

fun flood_seq :: "(int \<times> int) set \<Rightarrow> (int \<times> int \<Rightarrow> bool) \<Rightarrow> (int \<times> int) list \<Rightarrow> (int \<times> int) set" where
  "flood_seq Hs Z [] = {}"
| "flood_seq Hs Z (n # ns) = flood Hs Z n \<union> flood_seq (Hs - flood Hs Z n) Z ns"

lemma flood_subset: "flood Hs Z c0 \<subseteq> Hs"
proof
  fix c assume "c \<in> flood Hs Z c0"
  then show "c \<in> Hs" by induction auto
qed

lemma flood_outside: "c0 \<notin> Hs \<Longrightarrow> flood Hs Z c0 = {}"
proof -
  assume a: "c0 \<notin> Hs"
  have "c \<in> flood Hs Z c0 \<Longrightarrow> False" for c
    by (induction rule: flood.induct) (use a in auto)
  then show ?thesis by blast
qed

lemma flood_nonzero: 
  assumes "c0 \<in> Hs" "\<not> Z c0"
  shows "flood Hs Z c0 = {c0}"
proof -
  have "c \<in> flood Hs Z c0 \<Longrightarrow> c = c0" for c
    by (induction rule: flood.induct) (use assms in auto)
  then show ?thesis using flood.start [OF assms(1)] by blast
qed

lemma flood_mono: "Hs \<subseteq> Hs' \<Longrightarrow> flood Hs Z c0 \<subseteq> flood Hs' Z c0"
proof
  fix c assume s: "Hs \<subseteq> Hs'" and c: "c \<in> flood Hs Z c0"
  from c show "c \<in> flood Hs' Z c0"
  proof (induction rule: flood.induct)
    case start
    with s show ?case by (auto intro: flood.start)
  next
    case (step c n)
    with s show ?case by (auto intro: flood.step)
  qed
qed

lemma flood_cong:
  assumes "\<And>c. c \<in> Hs \<Longrightarrow> Z c = Z' c"
  shows "flood Hs Z c0 = flood Hs Z' c0"
proof -
  have 1: "c \<in> flood Hs Z c0 \<Longrightarrow> c \<in> flood Hs Z' c0" for c
  proof (induction rule: flood.induct)
    case start then show ?case by (rule flood.start)
  next
    case (step c n)
    from step.IH flood_subset [of Hs Z' c0] have "c \<in> Hs" by blast
    with assms step.hyps have "Z' c" by blast
    with step show ?case by (blast intro: flood.step)
  qed
  have 2: "c \<in> flood Hs Z' c0 \<Longrightarrow> c \<in> flood Hs Z c0" for c
  proof (induction rule: flood.induct)
    case start then show ?case by (rule flood.start)
  next
    case (step c n)
    from step.IH flood_subset [of Hs Z c0] have "c \<in> Hs" by blast
    with assms step.hyps have "Z c" by blast
    with step show ?case by (blast intro: flood.step)
  qed
  from 1 2 show ?thesis by blast
qed

text \<open>A set is closed when the cascade cannot leave it.\<close>

definition closed_in :: "(int \<times> int) set \<Rightarrow> (int \<times> int \<Rightarrow> bool) \<Rightarrow> (int \<times> int) set \<Rightarrow> bool" where
  "closed_in Hs Z R \<longleftrightarrow>
     (\<forall>c\<in>R. Z c \<longrightarrow> (\<forall>n\<in>set (neighbours (fst c) (snd c)). n \<in> Hs \<longrightarrow> n \<in> R))"

lemma flood_closed: "closed_in Hs Z (flood Hs Z c0)"
  by (auto simp: closed_in_def intro: flood.step)

lemma flood_split:
  assumes "closed_in Hs Z R"
  shows "flood Hs Z b \<subseteq> R \<union> flood (Hs - R) Z b"
proof
  fix c assume "c \<in> flood Hs Z b"
  then show "c \<in> R \<union> flood (Hs - R) Z b"
  proof (induction rule: flood.induct)
    case start
    then show ?case by (auto intro: flood.start)
  next
    case (step c n)
    show ?case
    proof (cases "n \<in> R")
      case True then show ?thesis by simp
    next
      case False
      with step assms have "c \<notin> R" by (auto simp: closed_in_def)
      with step have "c \<in> flood (Hs - R) Z b" by simp
      with step False show ?thesis by (auto intro: flood.step)
    qed
  qed
qed

lemma flood_after:
  assumes "closed_in Hs Z R"
  shows "R \<union> flood (Hs - R) Z b = R \<union> flood Hs Z b"
  using flood_split [OF assms, of b] flood_mono [of "Hs - R" Hs Z b] by blast

lemma closed_in_Un: "closed_in Hs Z R \<Longrightarrow> closed_in Hs Z R' \<Longrightarrow> closed_in Hs Z (R \<union> R')"
  by (auto simp: closed_in_def)

lemma flood_seq_eq: "flood_seq Hs Z ns = (\<Union>n\<in>set ns. flood Hs Z n)"
proof (induction ns arbitrary: Hs)
  case Nil
  show ?case by simp
next
  case (Cons n ns)
  let ?R = "flood Hs Z n"
  have "?R \<union> (\<Union>m\<in>set ns. flood (Hs - ?R) Z m) = ?R \<union> (\<Union>m\<in>set ns. flood Hs Z m)"
    using flood_after [OF flood_closed, of Hs Z n] by blast
  then show ?case by (simp add: Cons.IH)
qed

lemma flood_zero:
  assumes "c0 \<in> Hs" "Z c0"
  shows "flood Hs Z c0 = insert c0 (\<Union>n\<in>set (neighbours (fst c0) (snd c0)). flood (Hs - {c0}) Z n)"
    (is "_ = insert c0 ?U")
proof (intro equalityI subsetI)
  fix c assume "c \<in> flood Hs Z c0"
  then show "c \<in> insert c0 ?U"
  proof (induction rule: flood.induct)
    case start
    show ?case by simp
  next
    case (step c n)
    show ?case
    proof (cases "n = c0")
      case True then show ?thesis by simp
    next
      case False
      with step have n: "n \<in> Hs - {c0}" by simp
      from step.IH show ?thesis
      proof
        assume "c = c0"
        with step n show ?thesis by (auto intro: flood.start)
      next
        assume "c \<in> ?U"
        with step n show ?thesis by (auto intro: flood.step)
      qed
    qed
  qed
next
  fix c assume "c \<in> insert c0 ?U"
  then show "c \<in> flood Hs Z c0"
  proof
    assume "c = c0" with assms show ?thesis by (simp add: flood.start)
  next
    assume "c \<in> ?U"
    then obtain n where n: "n \<in> set (neighbours (fst c0) (snd c0))" and c: "c \<in> flood (Hs - {c0}) Z n"
      by blast
    from c show ?thesis
    proof (induction rule: flood.induct)
      case start
      then have "n \<in> Hs" by simp
      moreover have "c0 \<in> flood Hs Z c0" using assms(1) by (rule flood.start)
      ultimately show ?case using assms(2) n by (blast intro: flood.step)
    next
      case (step c m)
      then show ?case by (auto intro: flood.step)
    qed
  qed
qed

definition in_bounds :: "game \<Rightarrow> int \<Rightarrow> int \<Rightarrow> bool" where
  "in_bounds g x y \<longleftrightarrow> x \<ge> 0 \<and> x < BOARD_WIDTH g \<and> y \<ge> 0 \<and> y < BOARD_HEIGHT g"

definition well_shaped :: "game \<Rightarrow> bool" where
  "well_shaped g \<longleftrightarrow>
     length (spaces g) = nat (BOARD_WIDTH g) \<and>
     list_all (\<lambda>col. length col = nat (BOARD_HEIGHT g)) (spaces g)"

definition cell :: "game \<Rightarrow> int \<Rightarrow> int \<Rightarrow> space" where
  "cell g x y = spaces g ! nat x ! nat y"

definition hidden :: "game \<Rightarrow> (int \<times> int) set" where
  "hidden g = {(x, y). in_bounds g x y \<and> type (cell g x y) = HIDDEN}"

definition zero :: "game \<Rightarrow> int \<times> int \<Rightarrow> bool" where
  "zero g c \<longleftrightarrow> \<not> count (cell g (fst c) (snd c)) > 0"

definition marks :: "game \<Rightarrow> (int \<times> int) set \<Rightarrow> game \<Rightarrow> bool" where
  "marks g R g' \<longleftrightarrow>
     BOARD_WIDTH g' = BOARD_WIDTH g \<and> BOARD_HEIGHT g' = BOARD_HEIGHT g \<and>
     TOTAL_MINES g' = TOTAL_MINES g \<and> PRINT_DEBUG_INFO g' = PRINT_DEBUG_INFO g \<and>
     babymode g' = babymode g \<and> well_shaped g' \<and>
     (\<forall>x y. in_bounds g x y \<longrightarrow>
        cell g' x y = (if (x, y) \<in> R then (cell g x y)\<lparr>flag := False, type := EMPTY\<rparr>
                       else cell g x y))"

definition reveals :: "game \<Rightarrow> (int \<times> int) set \<Rightarrow> game \<Rightarrow> bool" where
  "reveals g R g' \<longleftrightarrow>
     marks g R g' \<and> pieces_left g' = pieces_left g - int (card R) \<and>
     game_state g' = (if R \<noteq> {} \<and> pieces_left g' \<le> 0 then Won else game_state g)"

fun reveal_all :: "nat \<Rightarrow> game \<Rightarrow> (int \<times> int) list \<Rightarrow> (error \<times> game) + game" where
  "reveal_all d g [] = Inr g"
| "reveal_all d g (c # cs) = bind (RevealEmpty d g (fst c) (snd c)) (\<lambda>g'. reveal_all d g' cs)"

lemma bind_Inr [simp]: "bind (Inr v) f = f v"
  by (simp add: bind_def)

lemma bind_Inl [simp]: "bind (Inl e) f = Inl e"
  by (simp add: bind_def)

lemma bind_return [simp]: "bind m Inr = m"
  by (simp add: bind_def split: sum.splits)

lemma well_shaped_nth:
  "well_shaped g \<Longrightarrow> in_bounds g x y \<Longrightarrow>
   nat x < length (spaces g) \<and> nat y < length (spaces g ! nat x)"
  by (auto simp: well_shaped_def in_bounds_def list_all_length)

lemma get_space_cell:
  "well_shaped g \<Longrightarrow> in_bounds g x y \<Longrightarrow> get_space g x y = Inr (cell g x y)"
  using well_shaped_nth [of g x y]
  by (simp add: get_space_Inr_nonneg in_bounds_def cell_def)

lemma put_space_fields [simp]:
  "BOARD_WIDTH (put_space g x y p) = BOARD_WIDTH g"
  "BOARD_HEIGHT (put_space g x y p) = BOARD_HEIGHT g"
  "TOTAL_MINES (put_space g x y p) = TOTAL_MINES g"
  "PRINT_DEBUG_INFO (put_space g x y p) = PRINT_DEBUG_INFO g"
  "pieces_left (put_space g x y p) = pieces_left g"
  "babymode (put_space g x y p) = babymode g"
  "game_state (put_space g x y p) = game_state g"
  by (simp_all add: put_space_def)

lemma in_bounds_put [simp]: "in_bounds (put_space g x y p) a b = in_bounds g a b"
  by (simp add: in_bounds_def)

lemma well_shaped_put: "well_shaped g \<Longrightarrow> well_shaped (put_space g x y p)"
proof -
  assume w: "well_shaped g"
  have "length (((spaces g)[nat x := (spaces g ! nat x)[nat y := p]]) ! n) = nat (BOARD_HEIGHT g)"
    if "n < length (spaces g)" for n
    using that w by (cases "n = nat x") (simp_all add: well_shaped_def list_all_length)
  with w show ?thesis
    by (simp add: well_shaped_def put_space_def list_all_length)
qed

lemma cell_put:
  "well_shaped g \<Longrightarrow> in_bounds g x y \<Longrightarrow> in_bounds g a b \<Longrightarrow>
   cell (put_space g x y p) a b = (if a = x \<and> b = y then p else cell g a b)"
  using well_shaped_nth [of g x y] well_shaped_nth [of g a b]
  by (auto simp: cell_def put_space_def nth_list_update in_bounds_def)

lemma finite_hidden: "finite (hidden g)"
proof -
  have "hidden g \<subseteq> {0..<BOARD_WIDTH g} \<times> {0..<BOARD_HEIGHT g}"
    by (auto simp: hidden_def in_bounds_def)
  then show ?thesis by (rule finite_subset) simp
qed

lemma marks_cell:
  "marks g R g' \<Longrightarrow> in_bounds g x y \<Longrightarrow>
   cell g' x y = (if (x, y) \<in> R then (cell g x y)\<lparr>flag := False, type := EMPTY\<rparr> else cell g x y)"
  by (simp add: marks_def)

lemma marks_bounds: "marks g R g' \<Longrightarrow> in_bounds g' x y = in_bounds g x y"
  by (simp add: marks_def in_bounds_def)

lemma marks_hidden: 
  assumes "marks g R g'"
  shows "hidden g' = hidden g - R"
proof -
  have "(x, y) \<in> hidden g' \<longleftrightarrow> (x, y) \<in> hidden g - R" for x y
    using marks_cell [OF assms, of x y] marks_bounds [OF assms, of x y]
    by (cases "in_bounds g x y") (auto simp: hidden_def)
  then show ?thesis by auto
qed

lemma marks_zero: "marks g R g' \<Longrightarrow> in_bounds g (fst c) (snd c) \<Longrightarrow> zero g' c = zero g c"
  using marks_cell [of g R g' "fst c" "snd c"] by (auto simp: zero_def)

lemma marks_shape: "marks g R g' \<Longrightarrow> well_shaped g'"
  by (simp add: marks_def)

lemma marks_refl: "well_shaped g \<Longrightarrow> marks g {} g"
  by (simp add: marks_def)

lemma marks_trans:
  assumes "marks g R1 g2" "marks g2 R2 g3" "R2 \<subseteq> hidden g2"
  shows "marks g (R1 \<union> R2) g3"
proof -
  have d: "R1 \<inter> R2 = {}" using assms(3) marks_hidden [OF assms(1)] by blast
  have c: "cell g3 x y = (if (x, y) \<in> R1 \<union> R2 then (cell g x y)\<lparr>flag := False, type := EMPTY\<rparr>
                          else cell g x y)" if "in_bounds g x y" for x y
    using that marks_cell [OF assms(1), of x y] marks_cell [OF assms(2), of x y]
      marks_bounds [OF assms(1), of x y] d
    by auto
  show ?thesis
    using assms(1,2) c by (simp add: marks_def)
qed

lemma reveals_refl: "well_shaped g \<Longrightarrow> reveals g {} g"
  by (simp add: reveals_def marks_refl)

lemma reveals_trans:
  assumes "reveals g R1 g2" "reveals g2 R2 g3" "R1 \<subseteq> hidden g" "R2 \<subseteq> hidden g2"
  shows "reveals g (R1 \<union> R2) g3"
proof -
  have m1: "marks g R1 g2" and m2: "marks g2 R2 g3" using assms by (simp_all add: reveals_def)
  have d: "R1 \<inter> R2 = {}" using assms(4) marks_hidden [OF m1] by blast
  have f1: "finite R1" using assms(3) finite_hidden by (rule finite_subset)
  have f2: "finite R2" using assms(4) finite_hidden by (rule finite_subset)
  have c: "card (R1 \<union> R2) = card R1 + card R2" using f1 f2 d by (rule card_Un_disjoint)
  have e2: "R2 = {} \<longleftrightarrow> card R2 = 0" using f2 by simp
  have e1: "R1 = {} \<longleftrightarrow> card R1 = 0" using f1 by simp
  show ?thesis
    unfolding reveals_def
  proof (intro conjI)
    show "marks g (R1 \<union> R2) g3" using m1 m2 assms(4) by (rule marks_trans)
    show p: "pieces_left g3 = pieces_left g - int (card (R1 \<union> R2))"
      using assms(1,2) c by (simp add: reveals_def)
    show "game_state g3 = (if R1 \<union> R2 \<noteq> {} \<and> pieces_left g3 \<le> 0 then Won else game_state g)"
      using assms(1,2) e1 e2 unfolding reveals_def by (auto split: if_splits)
  qed
qed

text \<open>The game after an operation, whether it returned or raised.\<close>

definition final :: "(error \<times> game) + game \<Rightarrow> game" where
  "final r = (case r of Inl (e, h) \<Rightarrow> h | Inr h \<Rightarrow> h)"

text \<open>The last statements of \<^verbatim>\<open>RevealEmpty\<close>: the counter and the test for the win.\<close>

definition counted :: "game \<Rightarrow> game" where
  "counted g9 =
     (let g10 = g9\<lparr>pieces_left := pieces_left g9 - 1\<rparr> in
      if pieces_left g10 \<le> 0 then GameWin g10 else g10)"

lemma final_simps [simp]: "final (Inl (e, h)) = h" "final (Inr h) = h"
  by (simp_all add: final_def)

lemma raised_Inr [simp]: "raised g (Inr v) = Inr v"
  by (simp add: raised_def)

lemma flood_seq_subset: "flood_seq Hs Z cs \<subseteq> Hs"
  using flood_subset by (fastforce simp: flood_seq_eq)

lemma flood_seq_cong:
  assumes "\<And>c. c \<in> Hs \<Longrightarrow> Z c = Z' c"
  shows "flood_seq Hs Z cs = flood_seq Hs Z' cs"
  using flood_cong [of Hs Z Z'] assms by (simp add: flood_seq_eq)

lemma hidden_in_bounds: "c \<in> hidden g \<Longrightarrow> in_bounds g (fst c) (snd c)"
  by (auto simp: hidden_def)

lemma RevealEmpty_unfold:
  "RevealEmpty d g x y =
     (if in_bounds g x y then
        bind (raised g (get_space g x y)) (\<lambda>piece.
          if type piece = HIDDEN then
            bind (if count piece > 0 then Inr (put_space g x y (piece\<lparr>flag := False, type := EMPTY\<rparr>))
                  else
                    (case d of
                       0 \<Rightarrow> Inl (RecursionError, put_space g x y (piece\<lparr>flag := False, type := EMPTY\<rparr>))
                     | Suc d' \<Rightarrow>
                         reveal_all d' (put_space g x y (piece\<lparr>flag := False, type := EMPTY\<rparr>))
                           (neighbours x y)))
              (\<lambda>g9. Inr (counted g9))
          else Inr g)
      else Inr g)"
  by (subst RevealEmpty.simps)
    (simp add: neighbours_def in_bounds_def Let_def counted_def cong: if_cong nat.case_cong)

lemma RevealEmpty_noop:
  "well_shaped g \<Longrightarrow> (x, y) \<notin> hidden g \<Longrightarrow> RevealEmpty d g x y = Inr g"
  by (subst RevealEmpty_unfold) (auto simp: get_space_cell hidden_def)

lemma RevealEmpty_hidden:
  "well_shaped g \<Longrightarrow> (x, y) \<in> hidden g \<Longrightarrow>
   RevealEmpty d g x y =
     bind (if count (cell g x y) > 0
           then Inr (put_space g x y ((cell g x y)\<lparr>flag := False, type := EMPTY\<rparr>))
           else
             (case d of
                0 \<Rightarrow> Inl (RecursionError, put_space g x y ((cell g x y)\<lparr>flag := False, type := EMPTY\<rparr>))
              | Suc d' \<Rightarrow>
                  reveal_all d' (put_space g x y ((cell g x y)\<lparr>flag := False, type := EMPTY\<rparr>))
                    (neighbours x y)))
       (\<lambda>g9. Inr (counted g9))"
  by (subst RevealEmpty_unfold) (simp add: get_space_cell hidden_def)

lemma frame_update [simp]:
  "well_shaped (g\<lparr>pieces_left := n\<rparr>) = well_shaped g"
  "well_shaped (g\<lparr>game_state := s\<rparr>) = well_shaped g"
  "cell (g\<lparr>pieces_left := n\<rparr>) = cell g"
  "cell (g\<lparr>game_state := s\<rparr>) = cell g"
  "in_bounds (g\<lparr>pieces_left := n\<rparr>) = in_bounds g"
  "in_bounds (g\<lparr>game_state := s\<rparr>) = in_bounds g"
  by (simp_all add: well_shaped_def cell_def in_bounds_def fun_eq_iff)

lemma marks_counted: "marks g R g9 \<Longrightarrow> marks g R (counted g9)"
  by (simp add: marks_def Let_def GameWin_def counted_def)

lemma marks_reveal_one:
  assumes "well_shaped g" "in_bounds g x y"
  shows "marks g {(x, y)} (put_space g x y ((cell g x y)\<lparr>flag := False, type := EMPTY\<rparr>))"
  using assms by (auto simp: marks_def well_shaped_put cell_put)

lemma reveals_counted:
  assumes m: "marks g {c0} g1" and p: "pieces_left g1 = pieces_left g"
    and s: "game_state g1 = game_state g" and r: "reveals g1 R' g9"
    and sub: "R' \<subseteq> hidden g1"
  shows "reveals g (insert c0 R') (counted g9)"
proof -
  have f: "finite R'" using sub finite_hidden by (rule finite_subset)
  have n: "c0 \<notin> R'" using sub marks_hidden [OF m] by blast
  have c: "int (card (insert c0 R')) = int (card R') + 1" using f n by simp
  have e: "R' = {} \<longleftrightarrow> card R' = 0" using f by simp
  have "marks g1 R' g9" using r by (simp add: reveals_def)
  with m have "marks g ({c0} \<union> R') g9" using sub by (rule marks_trans)
  then have "marks g (insert c0 R') g9" by simp
  then have 1: "marks g (insert c0 R') (counted g9)" by (rule marks_counted)
  show ?thesis
    unfolding reveals_def
    using 1 r p s c e by (auto simp: reveals_def Let_def GameWin_def counted_def split: if_splits)
qed

subsection \<open>With enough depth the flood fill returns\<close>

lemma reveal_all_reveals:
  assumes IH: "\<And>g x y. well_shaped g \<Longrightarrow> card (hidden g) \<le> d \<Longrightarrow>
     \<exists>g'. RevealEmpty d g x y = Inr g' \<and> reveals g (flood (hidden g) (zero g) (x, y)) g'"
  shows "well_shaped g \<Longrightarrow> card (hidden g) \<le> d \<Longrightarrow>
     \<exists>g'. reveal_all d g cs = Inr g' \<and> reveals g (flood_seq (hidden g) (zero g) cs) g'"
proof (induction cs arbitrary: g)
  case Nil
  then show ?case by (simp add: reveals_refl)
next
  case (Cons c cs)
  let ?R1 = "flood (hidden g) (zero g) c"
  from IH [OF Cons.prems, of "fst c" "snd c"] obtain g2 where
    g2: "RevealEmpty d g (fst c) (snd c) = Inr g2" and r1: "reveals g ?R1 g2"
    by auto
  have m1: "marks g ?R1 g2" using r1 by (simp add: reveals_def)
  have h2: "hidden g2 = hidden g - ?R1" using m1 by (rule marks_hidden)
  have "card (hidden g2) \<le> card (hidden g)"
    unfolding h2 using finite_hidden by (intro card_mono) auto
  with Cons.prems have "card (hidden g2) \<le> d" by simp
  from Cons.IH [OF marks_shape [OF m1] this] obtain g3 where
    g3: "reveal_all d g2 cs = Inr g3" and r2: "reveals g2 (flood_seq (hidden g2) (zero g2) cs) g3"
    by auto
  have z: "flood_seq (hidden g2) (zero g2) cs = flood_seq (hidden g - ?R1) (zero g) cs"
    unfolding h2
    by (rule flood_seq_cong) (use marks_zero [OF m1] hidden_in_bounds in blast)
  have "reveals g (?R1 \<union> flood_seq (hidden g2) (zero g2) cs) g3"
    using r1 r2 flood_subset flood_seq_subset by (rule reveals_trans)
  then show ?case using g2 g3 z by simp
qed

lemma RevealEmpty_enough_depth:
  "well_shaped g \<Longrightarrow> card (hidden g) \<le> d \<Longrightarrow>
   \<exists>g'. RevealEmpty d g x y = Inr g' \<and> reveals g (flood (hidden g) (zero g) (x, y)) g'"
proof (induction d arbitrary: g x y)
  case 0
  then have "hidden g = {}" using finite_hidden [of g] by simp
  then have "(x, y) \<notin> hidden g" by simp
  then have "flood (hidden g) (zero g) (x, y) = {}" by (rule flood_outside)
  moreover have "RevealEmpty 0 g x y = Inr g"
    using "0.prems"(1) \<open>(x, y) \<notin> hidden g\<close> by (rule RevealEmpty_noop)
  ultimately show ?case using "0.prems"(1) by (simp add: reveals_refl)
next
  case (Suc d)
  note w = \<open>well_shaped g\<close>
  show ?case
  proof (cases "(x, y) \<in> hidden g")
    case False
    then have "flood (hidden g) (zero g) (x, y) = {}" by (rule flood_outside)
    moreover have "RevealEmpty (Suc d) g x y = Inr g" using w False by (rule RevealEmpty_noop)
    ultimately show ?thesis using w by (simp add: reveals_refl)
  next
    case True
    then have ib: "in_bounds g x y" by (simp add: hidden_def)
    define g1 where "g1 = put_space g x y ((cell g x y)\<lparr>flag := False, type := EMPTY\<rparr>)"
    have m: "marks g {(x, y)} g1" unfolding g1_def using w ib by (rule marks_reveal_one)
    have w1: "well_shaped g1" using m by (rule marks_shape)
    have h1: "hidden g1 = hidden g - {(x, y)}" using m by (rule marks_hidden)
    have less1: "card (hidden g1) \<le> d"
      unfolding h1 using True finite_hidden [of g] Suc.prems(2) by simp
    have p1: "pieces_left g1 = pieces_left g" "game_state g1 = game_state g"
      by (simp_all add: g1_def)
    show ?thesis
    proof (cases "0 < count (cell g x y)")
      case pos: True
      then have "flood (hidden g) (zero g) (x, y) = {(x, y)}"
        using True by (intro flood_nonzero) (simp_all add: zero_def)
      moreover have "RevealEmpty (Suc d) g x y = Inr (counted g1)"
        using pos by (simp add: RevealEmpty_hidden [OF w True] g1_def)
      moreover have "reveals g (insert (x, y) {}) (counted g1)"
        using m p1 reveals_refl [OF w1] by (intro reveals_counted) simp_all
      ultimately show ?thesis by simp
    next
      case zer: False
      let ?R' = "flood_seq (hidden g1) (zero g1) (neighbours x y)"
      have "\<exists>g'. reveal_all d g1 (neighbours x y) = Inr g' \<and> reveals g1 ?R' g'"
        using Suc.IH w1 less1 by (intro reveal_all_reveals) auto
      then obtain g9 where g9: "reveal_all d g1 (neighbours x y) = Inr g9" and r: "reveals g1 ?R' g9"
        by auto
      have z: "?R' = flood_seq (hidden g - {(x, y)}) (zero g) (neighbours x y)"
        unfolding h1
        by (rule flood_seq_cong) (use marks_zero [OF m] hidden_in_bounds in blast)
      have "?R' = (\<Union>n\<in>set (neighbours x y). flood (hidden g - {(x, y)}) (zero g) n)"
        unfolding z by (rule flood_seq_eq)
      then have fl: "flood (hidden g) (zero g) (x, y) = insert (x, y) ?R'"
        using True zer flood_zero [of "(x, y)" "hidden g" "zero g"]
        by (simp add: zero_def)
      have "RevealEmpty (Suc d) g x y = Inr (counted g9)"
        using zer g9 by (simp add: RevealEmpty_hidden [OF w True] g1_def [symmetric])
      moreover have "reveals g (insert (x, y) ?R') (counted g9)"
        using m p1 r flood_seq_subset by (intro reveals_counted) simp_all
      ultimately show ?thesis using fl by simp
    qed
  qed
qed

subsection \<open>More depth does not change a result\<close>

lemma reveal_all_Suc:
  assumes "\<And>g x y g'. RevealEmpty d g x y = Inr g' \<Longrightarrow> RevealEmpty (Suc d) g x y = Inr g'"
  shows "reveal_all d g cs = Inr g' \<Longrightarrow> reveal_all (Suc d) g cs = Inr g'"
  by (induction cs arbitrary: g) (auto simp: bind_Inr_iff assms)

lemma RevealEmpty_Suc:
  "RevealEmpty d g x y = Inr g' \<Longrightarrow> RevealEmpty (Suc d) g x y = Inr g'"
proof (induction d arbitrary: g x y g')
  case 0
  then show ?case
    by (subst RevealEmpty_unfold, subst (asm) RevealEmpty_unfold)
      (auto simp: bind_Inr_iff split: if_splits)
next
  case (Suc d)
  note mono = reveal_all_Suc [OF Suc.IH]
  from Suc.prems show ?case
    by (subst RevealEmpty_unfold, subst (asm) RevealEmpty_unfold)
      (auto simp: bind_Inr_iff split: if_splits intro: mono)
qed

lemma RevealEmpty_deeper:
  assumes "RevealEmpty d g x y = Inr g'" and "d \<le> d'"
  shows "RevealEmpty d' g x y = Inr g'"
  using assms(2,1) by (induction d' rule: dec_induct) (auto intro: RevealEmpty_Suc)

lemma RevealEmpty_reveals:
  assumes "well_shaped g" and "RevealEmpty d g x y = Inr g'"
  shows "reveals g (flood (hidden g) (zero g) (x, y)) g'"
proof -
  let ?D = "max d (card (hidden g))"
  have "RevealEmpty ?D g x y = Inr g'" using assms(2) by (rule RevealEmpty_deeper) simp
  moreover from RevealEmpty_enough_depth [OF assms(1), of ?D x y] obtain g'' where
    "RevealEmpty ?D g x y = Inr g''" "reveals g (flood (hidden g) (zero g) (x, y)) g''"
    by auto
  ultimately show ?thesis by simp
qed

subsection \<open>A flood fill that runs out of stack\<close>

text \<open>
  \<open>h\<close> is \<open>g\<close> in the middle of a flood fill: some hidden safe spaces are revealed, and
  fewer of them are counted in \<open>pieces_left\<close> than are revealed.
\<close>

definition interrupted :: "game \<Rightarrow> game \<Rightarrow> bool" where
  "interrupted g h \<longleftrightarrow>
     (\<exists>R. R \<subseteq> hidden g \<and> marks g R h \<and> pieces_left h \<le> pieces_left g \<and>
          pieces_left g < pieces_left h + int (card R) \<and>
          (game_state h = game_state g \<or> game_state h = Won \<and> pieces_left h \<le> 0))"

lemma bind_Inl_iff:
  "bind m f = Inl e \<longleftrightarrow> m = Inl e \<or> (\<exists>v. m = Inr v \<and> f v = Inl e)"
  by (cases m) simp_all

lemma interrupted_after:
  assumes m: "marks g R1 g2" and sub: "R1 \<subseteq> hidden g"
    and le: "pieces_left g2 \<le> pieces_left g"
    and ge: "pieces_left g \<le> pieces_left g2 + int (card R1)"
    and gs: "game_state g2 = game_state g \<or> game_state g2 = Won \<and> pieces_left g2 \<le> 0"
    and i: "interrupted g2 h"
  shows "interrupted g h"
proof -
  from i obtain R2 where R2: "R2 \<subseteq> hidden g2" "marks g2 R2 h"
    "pieces_left h \<le> pieces_left g2" "pieces_left g2 < pieces_left h + int (card R2)"
    "game_state h = game_state g2 \<or> game_state h = Won \<and> pieces_left h \<le> 0"
    unfolding interrupted_def by blast
  have h2: "hidden g2 = hidden g - R1" using m by (rule marks_hidden)
  have f: "finite R1" "finite R2"
    using sub R2(1) finite_hidden [of g] finite_hidden [of g2] by (auto intro: finite_subset)
  have d: "R1 \<inter> R2 = {}" using R2(1) h2 by auto
  have c: "card (R1 \<union> R2) = card R1 + card R2" using f d by (rule card_Un_disjoint)
  have 1: "R1 \<union> R2 \<subseteq> hidden g" using sub R2(1) h2 by auto
  have 2: "marks g (R1 \<union> R2) h" using m R2(2,1) by (rule marks_trans)
  have 3: "pieces_left h \<le> pieces_left g" using le R2(3) by simp
  have 4: "pieces_left g < pieces_left h + int (card (R1 \<union> R2))" using ge R2(4) c by simp
  have 5: "game_state h = game_state g \<or> game_state h = Won \<and> pieces_left h \<le> 0"
    using gs R2(3,5) by auto
  show ?thesis unfolding interrupted_def using 1 2 3 4 5 by blast
qed

lemma interrupted_start:
  assumes "marks g {c} g1" "c \<in> hidden g" "pieces_left g1 = pieces_left g"
    "game_state g1 = game_state g"
  shows "interrupted g g1"
  unfolding interrupted_def using assms by (intro exI [of _ "{c}"]) simp

lemma RevealEmpty_Inl_cases:
  assumes "well_shaped g" and "RevealEmpty d g x y = Inl (e, h)"
  shows "(x, y) \<in> hidden g \<and> \<not> 0 < count (cell g x y) \<and>
     (case d of
        0 \<Rightarrow> e = RecursionError \<and> h = put_space g x y ((cell g x y)\<lparr>flag := False, type := EMPTY\<rparr>)
      | Suc d' \<Rightarrow>
          reveal_all d' (put_space g x y ((cell g x y)\<lparr>flag := False, type := EMPTY\<rparr>))
            (neighbours x y) = Inl (e, h))"
proof -
  have hid: "(x, y) \<in> hidden g"
    using assms RevealEmpty_noop [of g x y d] by auto
  from assms(2) show ?thesis
    unfolding RevealEmpty_hidden [OF assms(1) hid]
    using hid by (auto simp: bind_Inl_iff split: if_splits nat.splits)
qed

lemma reveal_all_raises:
  assumes IH: "\<And>g x y e h. well_shaped g \<Longrightarrow> RevealEmpty d g x y = Inl (e, h) \<Longrightarrow>
     e = RecursionError \<and> interrupted g h"
  shows "well_shaped g \<Longrightarrow> reveal_all d g cs = Inl (e, h) \<Longrightarrow>
     e = RecursionError \<and> interrupted g h"
proof (induction cs arbitrary: g)
  case Nil
  then show ?case by simp
next
  case (Cons c cs)
  from Cons.prems(2) consider
    (raise) "RevealEmpty d g (fst c) (snd c) = Inl (e, h)"
    | (ret) g2 where "RevealEmpty d g (fst c) (snd c) = Inr g2" "reveal_all d g2 cs = Inl (e, h)"
    by (auto simp: bind_Inl_iff)
  then show ?case
  proof cases
    case raise
    with Cons.prems(1) show ?thesis by (rule IH)
  next
    case ret
    let ?R = "flood (hidden g) (zero g) (fst c, snd c)"
    have r: "reveals g ?R g2" using Cons.prems(1) ret(1) by (rule RevealEmpty_reveals)
    then have m: "marks g ?R g2" by (simp add: reveals_def)
    from Cons.IH [OF marks_shape [OF m] ret(2)] have e: "e = RecursionError" and i: "interrupted g2 h"
      by simp_all
    have "interrupted g h"
      using m flood_subset _ _ _ i
    proof (rule interrupted_after)
      show "pieces_left g2 \<le> pieces_left g" "pieces_left g \<le> pieces_left g2 + int (card ?R)"
        using r by (simp_all add: reveals_def)
      show "game_state g2 = game_state g \<or> game_state g2 = Won \<and> pieces_left g2 \<le> 0"
        using r by (simp add: reveals_def)
    qed
    with e show ?thesis by simp
  qed
qed

lemma RevealEmpty_raises:
  "well_shaped g \<Longrightarrow> RevealEmpty d g x y = Inl (e, h) \<Longrightarrow>
   e = RecursionError \<and> interrupted g h \<and>
   cell h x y = (cell g x y)\<lparr>flag := False, type := EMPTY\<rparr>"
proof (induction d arbitrary: g x y e h)
  case 0
  define g1 where "g1 = put_space g x y ((cell g x y)\<lparr>flag := False, type := EMPTY\<rparr>)"
  from RevealEmpty_Inl_cases [OF "0.prems"] have hid: "(x, y) \<in> hidden g"
    and e: "e = RecursionError" and h: "h = g1"
    by (simp_all add: g1_def)
  have ib: "in_bounds g x y" using hid by (simp add: hidden_def)
  have m: "marks g {(x, y)} g1" unfolding g1_def using "0.prems"(1) ib by (rule marks_reveal_one)
  have "interrupted g g1" using m hid by (rule interrupted_start) (simp_all add: g1_def)
  moreover have "cell g1 x y = (cell g x y)\<lparr>flag := False, type := EMPTY\<rparr>"
    using marks_cell [OF m ib] by simp
  ultimately show ?case using e h by simp
next
  case (Suc d)
  define g1 where "g1 = put_space g x y ((cell g x y)\<lparr>flag := False, type := EMPTY\<rparr>)"
  from RevealEmpty_Inl_cases [OF Suc.prems] have hid: "(x, y) \<in> hidden g"
    and ra: "reveal_all d g1 (neighbours x y) = Inl (e, h)"
    by (simp_all add: g1_def)
  have ib: "in_bounds g x y" using hid by (simp add: hidden_def)
  have m: "marks g {(x, y)} g1" unfolding g1_def using Suc.prems(1) ib by (rule marks_reveal_one)
  have p1: "pieces_left g1 = pieces_left g" "game_state g1 = game_state g"
    by (simp_all add: g1_def)
  have ih: "e = RecursionError \<and> interrupted g h"
    if "well_shaped g" "RevealEmpty d g x y = Inl (e, h)" for g x y e h
    using Suc.IH [OF that] by simp
  from reveal_all_raises [OF ih marks_shape [OF m] ra]
  have e: "e = RecursionError" and i1: "interrupted g1 h" by simp_all
  have i: "interrupted g h"
    using m _ _ _ _ i1 by (rule interrupted_after) (use hid p1 in simp_all)
  from i1 obtain R where R: "R \<subseteq> hidden g1" "marks g1 R h"
    unfolding interrupted_def by blast
  have "(x, y) \<notin> R" using R(1) marks_hidden [OF m] by auto
  moreover have "in_bounds g1 x y" using marks_bounds [OF m] ib by simp
  ultimately have "cell h x y = cell g1 x y" using marks_cell [OF R(2)] by simp
  also have "\<dots> = (cell g x y)\<lparr>flag := False, type := EMPTY\<rparr>"
    using marks_cell [OF m ib] by simp
  finally show ?case using e i by simp
qed

section \<open>Clicks on a well-shaped board\<close>

text \<open>The coordinates of the board, its hidden safe spaces, and the spaces that
  are revealed in \<open>g'\<close> but not in \<open>g\<close>.\<close>

definition coords :: "game \<Rightarrow> (int \<times> int) list" where
  "coords g = List.product [0..BOARD_WIDTH g - 1] [0..BOARD_HEIGHT g - 1]"

definition hidden_cells :: "game \<Rightarrow> (int \<times> int) list" where
  "hidden_cells g = filter (\<lambda>(x, y). type (cell g x y) = HIDDEN) (coords g)"

definition newly_revealed :: "game \<Rightarrow> game \<Rightarrow> (int \<times> int) list" where
  "newly_revealed g g' =
     filter (\<lambda>(x, y). type (cell g' x y) = EMPTY \<and> type (cell g x y) \<noteq> EMPTY) (coords g)"

text \<open>A board of one column and two rows with a mine in the first row.\<close>

definition lone_mine :: game where
  "lone_mine =
     \<lparr>BOARD_WIDTH = 1, BOARD_HEIGHT = 2, TOTAL_MINES = 1, PRINT_DEBUG_INFO = False,
      spaces = [[\<lparr>type = MINE, count = 0, flag = False\<rparr>,
                 \<lparr>type = HIDDEN, count = 1, flag = False\<rparr>]],
      pieces_left = 1, babymode = False, game_state = InProgress\<rparr>"

lemma set_coords: "set (coords g) = {(x, y). in_bounds g x y}"
  by (auto simp: coords_def in_bounds_def)

lemma distinct_coords: "distinct (coords g)"
  by (simp add: coords_def distinct_product)

lemma coords_frame [simp]:
  "coords (g\<lparr>game_state := s\<rparr>) = coords g"
  "coords (g\<lparr>pieces_left := n\<rparr>) = coords g"
  by (simp_all add: coords_def)

lemma set_hidden_cells: "set (hidden_cells g) = hidden g"
  by (auto simp: hidden_cells_def set_coords hidden_def)

lemma length_hidden_cells: "length (hidden_cells g) = card (hidden g)"
proof -
  have "distinct (hidden_cells g)" by (simp add: hidden_cells_def distinct_coords)
  then show ?thesis using set_hidden_cells [of g] by (metis distinct_card)
qed

lemma hidden_cells_frame [simp]:
  "hidden_cells (g\<lparr>game_state := s\<rparr>) = hidden_cells g"
  by (simp add: hidden_cells_def)

lemma set_newly_revealed:
  assumes "marks g R g'" "R \<subseteq> hidden g"
  shows "set (newly_revealed g g') = R"
proof -
  have "(x, y) \<in> set (newly_revealed g g') \<longleftrightarrow> (x, y) \<in> R" for x y
  proof (cases "in_bounds g x y")
    case True
    then show ?thesis
      using marks_cell [OF assms(1) True] assms(2)
      by (auto simp: newly_revealed_def set_coords hidden_def)
  next
    case False
    then show ?thesis using assms(2) by (auto simp: newly_revealed_def set_coords hidden_def)
  qed
  then show ?thesis by auto
qed

lemma length_newly_revealed:
  assumes "marks g R g'" "R \<subseteq> hidden g"
  shows "length (newly_revealed g g') = card R"
proof -
  have "distinct (newly_revealed g g')" by (simp add: newly_revealed_def distinct_coords)
  then show ?thesis using set_newly_revealed [OF assms] by (metis distinct_card)
qed

lemma newly_revealed_none:
  "(\<And>x y. in_bounds g x y \<Longrightarrow> cell g' x y = cell g x y) \<Longrightarrow> newly_revealed g g' = []"
  by (auto simp: newly_revealed_def set_coords filter_empty_conv)

lemma ClickSpace_cell:
  "well_shaped g \<Longrightarrow> in_bounds g x y \<Longrightarrow>
   ClickSpace d g x y =
     (if flag (cell g x y) then Inr g
      else if type (cell g x y) = MINE then Inr (GameOver g x y)
      else if type (cell g x y) = HIDDEN then RevealEmpty d g x y
      else Inr g)"
  by (simp add: ClickSpace_def get_space_cell)

lemma ClickSpace_deeper:
  assumes "ClickSpace d g x y = Inr g'" and "d \<le> d'"
  shows "ClickSpace d' g x y = Inr g'"
proof (cases "get_space g x y")
  case (Inl e)
  with assms(1) show ?thesis by (simp add: ClickSpace_def raised_def)
next
  case (Inr piece)
  with assms show ?thesis
    by (auto simp: ClickSpace_def split: if_splits intro: RevealEmpty_deeper)
qed

lemma RightClickSpace_cell:
  "well_shaped g \<Longrightarrow> in_bounds g x y \<Longrightarrow>
   RightClickSpace g x y =
     (if type (cell g x y) = MINE \<or> type (cell g x y) = HIDDEN then
        Inr (put_space g x y ((cell g x y)\<lparr>flag := \<not> flag (cell g x y)\<rparr>))
      else Inr g)"
  by (simp add: RightClickSpace_def get_space_cell)

lemma put_space_twice:
  "put_space (put_space g x y q) x y p = put_space g x y p"
  by (cases "nat x < length (spaces g)") (simp_all add: put_space_def list_update_beyond)

lemma put_space_same:
  "put_space g x y (cell g x y) = g"
  by (simp add: put_space_def cell_def)

lemma put_space_types:
  assumes "well_shaped g" "in_bounds g x y" "type p = type (cell g x y)"
  shows "map (map type) (spaces (put_space g x y p)) = map (map type) (spaces g)"
proof -
  note n = well_shaped_nth [OF assms(1,2)]
  have "(map type (spaces g ! nat x))[nat y := type p] = map type (spaces g ! nat x)"
    using assms(3) n by (subst list_update_same_conv) (simp_all add: cell_def)
  then have "map type ((spaces g ! nat x)[nat y := p]) = map type (spaces g ! nat x)"
    by (simp add: map_update)
  moreover have "(map (map type) (spaces g))[nat x := map type (spaces g ! nat x)]
      = map (map type) (spaces g)"
    using n by (subst list_update_same_conv) simp_all
  ultimately show ?thesis
    by (simp add: put_space_def map_update)
qed

lemma flood_self: "(x, y) \<in> hidden g \<Longrightarrow> (x, y) \<in> flood (hidden g) (zero g) (x, y)"
  by (rule flood.start)

lemma reveals_card:
  assumes "reveals g R g'" "R \<subseteq> hidden g" "c \<in> R"
  shows "pieces_left g' < pieces_left g"
proof -
  have "finite R" using assms(2) finite_hidden by (rule finite_subset)
  with assms(3) have "0 < card R" by (auto simp: card_gt_0_iff)
  with assms(1) show ?thesis by (simp add: reveals_def)
qed

lemma RevealEmpty_final_cell:
  assumes "well_shaped g" and "(x, y) \<in> hidden g"
  shows "cell (final (RevealEmpty d g x y)) x y = (cell g x y)\<lparr>flag := False, type := EMPTY\<rparr>"
proof (cases "RevealEmpty d g x y")
  case (Inl p)
  obtain e h where "p = (e, h)" by (cases p)
  with Inl RevealEmpty_raises [OF assms(1), of d x y e h] show ?thesis by simp
next
  case (Inr g')
  let ?R = "flood (hidden g) (zero g) (x, y)"
  have "reveals g ?R g'" using assms(1) Inr by (rule RevealEmpty_reveals)
  then have m: "marks g ?R g'" by (simp add: reveals_def)
  have "in_bounds g x y" using assms(2) by (simp add: hidden_def)
  from marks_cell [OF m this] flood_self [OF assms(2)] Inr show ?thesis by simp
qed

section \<open>Clicking a mine\<close>

text \<open>
  Claim C10. A left click on a mine that carries no flag changes nothing but the state
  of the game: the result is the same record with \<open>game_state\<close> set to \<open>Lost\<close>, so
  the mine keeps the type \<open>MINE\<close>, no other space changes and \<open>pieces_left\<close> keeps
  its value. \<open>RevealEmpty\<close> called on the coordinates of a mine returns the game
  unchanged. Both hold whatever is left of the stack.
\<close>

theorem mine_click_frame:
  assumes "get_space g x y = Inr piece" and "type piece = MINE"
  shows "(\<not> flag piece \<longrightarrow> ClickSpace d g x y = Inr (g\<lparr>game_state := Lost\<rparr>)) \<and>
         RevealEmpty d g x y = Inr g"
  using assms by (simp add: ClickSpace_def GameOver_def RevealEmpty.simps [of d g x y])

theorem mine_click_frame_witness:
  "get_space lone_mine 0 0 = Inr \<lparr>type = MINE, count = 0, flag = False\<rparr> \<and>
   (\<forall>d. ClickSpace d lone_mine 0 0 = Inr (lone_mine\<lparr>game_state := Lost\<rparr>)) \<and>
   (\<forall>d. RevealEmpty d lone_mine 0 0 = Inr lone_mine)"
proof -
  have h: "get_space lone_mine 0 0 = Inr \<lparr>type = MINE, count = 0, flag = False\<rparr>"
    by code_simp
  show ?thesis using h mine_click_frame [OF h] by simp
qed

section \<open>Flags\<close>

text \<open>
  Claim C9. On a space that is not revealed, two right clicks in succession give back
  the game they started from. The first click inverts the flag of the space and
  nothing else: the type of every space, \<open>pieces_left\<close> and the state of the game are
  as before.
\<close>

theorem toggle_flag_round_trip:
  assumes "well_shaped g" and "in_bounds g x y" and "type (cell g x y) \<noteq> EMPTY"
  shows "\<exists>g1. RightClickSpace g x y = Inr g1 \<and> RightClickSpace g1 x y = Inr g \<and>
           cell g1 x y = (cell g x y)\<lparr>flag := \<not> flag (cell g x y)\<rparr> \<and>
           map (map type) (spaces g1) = map (map type) (spaces g) \<and>
           pieces_left g1 = pieces_left g \<and> game_state g1 = game_state g"
proof -
  let ?p = "cell g x y"
  let ?g1 = "put_space g x y (?p\<lparr>flag := \<not> flag ?p\<rparr>)"
  have t: "type ?p = MINE \<or> type ?p = HIDDEN" using assms(3) by (cases "type ?p") auto
  have 1: "RightClickSpace g x y = Inr ?g1"
    using assms(1,2) t by (simp add: RightClickSpace_cell)
  have w1: "well_shaped ?g1" using assms(1) by (rule well_shaped_put)
  have c1: "cell ?g1 x y = ?p\<lparr>flag := \<not> flag ?p\<rparr>"
    using assms(1,2) by (simp add: cell_put)
  have "RightClickSpace ?g1 x y = Inr (put_space ?g1 x y (?p\<lparr>flag := flag ?p\<rparr>))"
    using w1 assms(2) t by (simp add: RightClickSpace_cell c1)
  then have 2: "RightClickSpace ?g1 x y = Inr g"
    by (simp add: put_space_twice put_space_same)
  have 3: "map (map type) (spaces ?g1) = map (map type) (spaces g)"
    using assms(1,2) by (intro put_space_types) simp_all
  show ?thesis using 1 2 3 c1 by simp
qed

theorem toggle_flag_round_trip_witness:
  "well_shaped lone_mine \<and> in_bounds lone_mine 0 1 \<and> type (cell lone_mine 0 1) \<noteq> EMPTY \<and>
   (\<exists>g1. RightClickSpace lone_mine 0 1 = Inr g1 \<and> RightClickSpace g1 0 1 = Inr lone_mine \<and>
      cell g1 0 1 = (cell lone_mine 0 1)\<lparr>flag := \<not> flag (cell lone_mine 0 1)\<rparr> \<and>
      map (map type) (spaces g1) = map (map type) (spaces lone_mine) \<and>
      pieces_left g1 = pieces_left lone_mine \<and> game_state g1 = game_state lone_mine)"
proof -
  have h1: "well_shaped lone_mine" by code_simp
  have h2: "in_bounds lone_mine 0 1" by code_simp
  have h3: "type (cell lone_mine 0 1) \<noteq> EMPTY" by code_simp
  show ?thesis using h1 h2 h3 toggle_flag_round_trip [OF h1 h2 h3] by simp
qed

section \<open>Flags and the flood fill\<close>

text \<open>A board of one column and two rows without mines; the second space carries a flag.\<close>

definition flagged_board :: game where
  "flagged_board =
     \<lparr>BOARD_WIDTH = 1, BOARD_HEIGHT = 2, TOTAL_MINES = 0, PRINT_DEBUG_INFO = False,
      spaces = [[\<lparr>type = HIDDEN, count = 0, flag = False\<rparr>,
                 \<lparr>type = HIDDEN, count = 0, flag = True\<rparr>]],
      pieces_left = 2, babymode = False, game_state = InProgress\<rparr>"

text \<open>
  Claim C6 says that a flagged space is never revealed, also when the flood fill
  reaches it. On \<open>flagged_board\<close> the click on the first space reveals the flagged
  second space as well: its flag is removed, and \<open>pieces_left\<close> drops by two. (The
  cascade nests two calls under the first; the stack of the click admits 993.)
\<close>

theorem flagged_counterexample:
  "flag (cell flagged_board 0 1) \<and> type (cell flagged_board 0 1) = HIDDEN \<and>
   ClickSpace 993 flagged_board 0 0 =
     Inr \<lparr>BOARD_WIDTH = 1, BOARD_HEIGHT = 2, TOTAL_MINES = 0, PRINT_DEBUG_INFO = False,
          spaces = [[\<lparr>type = EMPTY, count = 0, flag = False\<rparr>,
                     \<lparr>type = EMPTY, count = 0, flag = False\<rparr>]],
          pieces_left = 0, babymode = False, game_state = Won\<rparr>"
proof -
  have 1: "flag (cell flagged_board 0 1)" "type (cell flagged_board 0 1) = HIDDEN"
    by code_simp+
  have 2: "ClickSpace 2 flagged_board 0 0 =
     Inr \<lparr>BOARD_WIDTH = 1, BOARD_HEIGHT = 2, TOTAL_MINES = 0, PRINT_DEBUG_INFO = False,
          spaces = [[\<lparr>type = EMPTY, count = 0, flag = False\<rparr>,
                     \<lparr>type = EMPTY, count = 0, flag = False\<rparr>]],
          pieces_left = 0, babymode = False, game_state = Won\<rparr>"
    by code_simp
  show ?thesis using 1 ClickSpace_deeper [OF 2, of 993] by simp
qed

text \<open>
  Claim C6, as the code has it. A left click on a flagged space returns the game
  unchanged: the space stays hidden and flagged and \<open>pieces_left\<close> keeps its value.
  \<open>RevealEmpty\<close> on a flagged hidden space (the recursive calls of the flood fill)
  removes the flag and reveals the space, whether the call returns or is cut short by
  \<^verbatim>\<open>RecursionError\<close>; when it returns, \<open>pieces_left\<close> is lower than before. It returns
  whenever the stack admits as many nested calls as the board has hidden spaces.
\<close>

theorem flagged_click_blocked:
  assumes "well_shaped g" and "in_bounds g x y" and "flag (cell g x y)"
  shows "ClickSpace d g x y = Inr g \<and>
         (type (cell g x y) = HIDDEN \<longrightarrow>
            cell (final (RevealEmpty d g x y)) x y = (cell g x y)\<lparr>flag := False, type := EMPTY\<rparr> \<and>
            (\<forall>g'. RevealEmpty d g x y = Inr g' \<longrightarrow> pieces_left g' < pieces_left g) \<and>
            (length (hidden_cells g) \<le> d \<longrightarrow> (\<exists>g'. RevealEmpty d g x y = Inr g')))"
proof (intro conjI impI allI)
  show "ClickSpace d g x y = Inr g" using assms by (simp add: ClickSpace_cell)
next
  assume "type (cell g x y) = HIDDEN"
  then have "(x, y) \<in> hidden g" using assms(2) by (simp add: hidden_def)
  with assms(1)
  show "cell (final (RevealEmpty d g x y)) x y = (cell g x y)\<lparr>flag := False, type := EMPTY\<rparr>"
    by (rule RevealEmpty_final_cell)
next
  fix g'
  assume hid: "type (cell g x y) = HIDDEN" and g': "RevealEmpty d g x y = Inr g'"
  let ?R = "flood (hidden g) (zero g) (x, y)"
  have r: "reveals g ?R g'" using assms(1) g' by (rule RevealEmpty_reveals)
  have c: "(x, y) \<in> ?R" using assms(2) hid by (intro flood_self) (simp add: hidden_def)
  show "pieces_left g' < pieces_left g"
    using r flood_subset c by (rule reveals_card)
next
  assume "length (hidden_cells g) \<le> d"
  then have "card (hidden g) \<le> d" by (simp add: length_hidden_cells)
  from RevealEmpty_enough_depth [OF assms(1) this, of x y]
  show "\<exists>g'. RevealEmpty d g x y = Inr g'" by blast
qed

theorem flagged_click_blocked_witness:
  "well_shaped flagged_board \<and> in_bounds flagged_board 0 1 \<and> flag (cell flagged_board 0 1) \<and>
   ClickSpace 2 flagged_board 0 1 = Inr flagged_board \<and>
   type (cell flagged_board 0 1) = HIDDEN \<and>
   cell (final (RevealEmpty 2 flagged_board 0 1)) 0 1 =
     (cell flagged_board 0 1)\<lparr>flag := False, type := EMPTY\<rparr> \<and>
   length (hidden_cells flagged_board) \<le> 2 \<and>
   (\<exists>g'. RevealEmpty 2 flagged_board 0 1 = Inr g' \<and> pieces_left g' < pieces_left flagged_board)"
proof -
  have h1: "well_shaped flagged_board" by code_simp
  have h2: "in_bounds flagged_board 0 1" by code_simp
  have h3: "flag (cell flagged_board 0 1)" by code_simp
  have h4: "type (cell flagged_board 0 1) = HIDDEN" by code_simp
  have h5: "length (hidden_cells flagged_board) \<le> 2" by code_simp
  note t = flagged_click_blocked [OF h1 h2 h3, of 2]
  from t have a: "ClickSpace 2 flagged_board 0 1 = Inr flagged_board" by blast
  from t h4 have b: "cell (final (RevealEmpty 2 flagged_board 0 1)) 0 1 =
     (cell flagged_board 0 1)\<lparr>flag := False, type := EMPTY\<rparr>" by blast
  from t h4 h5 have c: "\<exists>g'. RevealEmpty 2 flagged_board 0 1 = Inr g' \<and>
     pieces_left g' < pieces_left flagged_board" by blast
  from h1 h2 h3 a h4 b h5 c show ?thesis by (intro conjI)
qed

section \<open>Clicks after the end of the game\<close>

text \<open>The board \<open>lone_mine\<close> after its only safe space is revealed.\<close>

definition won_board :: game where
  "won_board =
     \<lparr>BOARD_WIDTH = 1, BOARD_HEIGHT = 2, TOTAL_MINES = 1, PRINT_DEBUG_INFO = False,
      spaces = [[\<lparr>type = MINE, count = 0, flag = False\<rparr>,
                 \<lparr>type = EMPTY, count = 1, flag = False\<rparr>]],
      pieces_left = 0, babymode = False, game_state = Won\<rparr>"

text \<open>
  Claim C5 says that a board whose state is \<open>Won\<close> or \<open>Lost\<close> rejects every further
  click. Revealing the safe space of \<open>lone_mine\<close> wins the game. \<^verbatim>\<open>GameWin\<close> opens its
  prompt without the \<^verbatim>\<open>WM_DELETE_WINDOW\<close> handler that \<^verbatim>\<open>GameOver\<close> installs to make a
  new board, so closing the prompt leaves the won board on the screen, and neither
  handler looks at the state of the game: a right click still sets a flag on the mine,
  and a left click on the mine still calls \<^verbatim>\<open>GameOver\<close>.
\<close>

theorem clicks_after_win:
  "(\<forall>d. ClickSpace d lone_mine 0 1 = Inr won_board) \<and> game_state won_board = Won \<and>
   RightClickSpace won_board 0 0 =
     Inr \<lparr>BOARD_WIDTH = 1, BOARD_HEIGHT = 2, TOTAL_MINES = 1, PRINT_DEBUG_INFO = False,
          spaces = [[\<lparr>type = MINE, count = 0, flag = True\<rparr>,
                     \<lparr>type = EMPTY, count = 1, flag = False\<rparr>]],
          pieces_left = 0, babymode = False, game_state = Won\<rparr> \<and>
   (\<forall>d. ClickSpace d won_board 0 0 =
     Inr \<lparr>BOARD_WIDTH = 1, BOARD_HEIGHT = 2, TOTAL_MINES = 1, PRINT_DEBUG_INFO = False,
          spaces = [[\<lparr>type = MINE, count = 0, flag = False\<rparr>,
                     \<lparr>type = EMPTY, count = 1, flag = False\<rparr>]],
          pieces_left = 0, babymode = False, game_state = Lost\<rparr>)"
proof -
  have 1: "ClickSpace 0 lone_mine 0 1 = Inr won_board" by code_simp
  have 2: "game_state won_board = Won" by code_simp
  have 3: "RightClickSpace won_board 0 0 =
     Inr \<lparr>BOARD_WIDTH = 1, BOARD_HEIGHT = 2, TOTAL_MINES = 1, PRINT_DEBUG_INFO = False,
          spaces = [[\<lparr>type = MINE, count = 0, flag = True\<rparr>,
                     \<lparr>type = EMPTY, count = 1, flag = False\<rparr>]],
          pieces_left = 0, babymode = False, game_state = Won\<rparr>" by code_simp
  have 4: "ClickSpace 0 won_board 0 0 =
     Inr \<lparr>BOARD_WIDTH = 1, BOARD_HEIGHT = 2, TOTAL_MINES = 1, PRINT_DEBUG_INFO = False,
          spaces = [[\<lparr>type = MINE, count = 0, flag = False\<rparr>,
                     \<lparr>type = EMPTY, count = 1, flag = False\<rparr>]],
          pieces_left = 0, babymode = False, game_state = Lost\<rparr>" by code_simp
  show ?thesis using ClickSpace_deeper [OF 1] 2 3 ClickSpace_deeper [OF 4] by simp
qed

section \<open>A long cascade\<close>

text \<open>
  The board of one column and \<open>n\<close> rows without mines, in the middle of the flood fill
  from its first space: the first \<open>k\<close> spaces are revealed, and none of them is counted
  in \<open>pieces_left\<close> yet. \<open>column_board n 0\<close> is the board that \<^verbatim>\<open>GenerateBoard\<close> makes for
  the arguments \<^verbatim>\<open>1 n 0\<close> of the program.
\<close>

definition column_board :: "nat \<Rightarrow> nat \<Rightarrow> game" where
  "column_board n k =
     \<lparr>BOARD_WIDTH = 1, BOARD_HEIGHT = int n, TOTAL_MINES = 0, PRINT_DEBUG_INFO = False,
      spaces = [replicate k \<lparr>type = EMPTY, count = 0, flag = False\<rparr> @
                replicate (n - k) \<lparr>type = HIDDEN, count = 0, flag = False\<rparr>],
      pieces_left = int n, babymode = False, game_state = InProgress\<rparr>"

lemma column_generated:
  "GenerateBoard (startup (Some 1) (Some (int n)) (Some 0) False) rs = Some (Inr (column_board n 0))"
  by (simp add: GenerateBoard_def startup_def Let_def ClearBoard_def column_board_def)

lemma column_shape: "k \<le> n \<Longrightarrow> well_shaped (column_board n k)"
  by (simp add: well_shaped_def column_board_def)

lemma column_bounds: "in_bounds (column_board n k) x y \<longleftrightarrow> x = 0 \<and> 0 \<le> y \<and> y < int n"
  by (auto simp: in_bounds_def column_board_def)

lemma column_cell:
  "cell (column_board n k) 0 (int j) =
     (if j < k then \<lparr>type = EMPTY, count = 0, flag = False\<rparr>
      else if j < n then \<lparr>type = HIDDEN, count = 0, flag = False\<rparr>
      else cell (column_board n k) 0 (int j))"
  by (simp add: cell_def column_board_def nth_append)

lemma column_hidden:
  "(x, y) \<in> hidden (column_board n k) \<longleftrightarrow> x = 0 \<and> int k \<le> y \<and> y < int n"
proof (cases "x = 0 \<and> 0 \<le> y \<and> y < int n")
  case False
  then show ?thesis by (auto simp: hidden_def column_bounds)
next
  case True
  then obtain j where j: "y = int j" "j < n" by (metis nonneg_int_cases of_nat_less_iff)
  with True show ?thesis by (simp add: hidden_def column_bounds column_cell)
qed

lemma column_step:
  assumes "k < n"
  shows "put_space (column_board n k) 0 (int k)
           ((cell (column_board n k) 0 (int k))\<lparr>flag := False, type := EMPTY\<rparr>)
         = column_board n (Suc k)"
proof -
  let ?e = "\<lparr>type = EMPTY, count = 0, flag = False\<rparr>"
  let ?h = "\<lparr>type = HIDDEN, count = 0, flag = False\<rparr>"
  have "replicate (n - k) ?h = ?h # replicate (n - Suc k) ?h"
    using assms by (cases "n - k") (simp_all add: Suc_diff_Suc)
  then have u: "(replicate k ?e @ replicate (n - k) ?h)[k := ?e]
      = replicate (Suc k) ?e @ replicate (n - Suc k) ?h"
    by (simp add: list_update_append replicate_append_same)
  have c: "cell (column_board n k) 0 (int k) = ?h"
    using assms by (simp add: column_cell)
  have "put_space (column_board n k) 0 (int k) ?e = column_board n (Suc k)"
    using u by (simp add: put_space_def column_board_def)
  then show ?thesis unfolding c by simp
qed

text \<open>With \<open>d\<close> nested calls left and more than \<open>d + 1\<close> hidden spaces ahead, the flood fill
  down the column raises \<^verbatim>\<open>RecursionError\<close>; \<open>d + 1\<close> more spaces are revealed.\<close>

lemma column_overflow:
  "k + d < n \<Longrightarrow>
   RevealEmpty d (column_board n k) 0 (int k) = Inl (RecursionError, column_board n (k + d + 1))"
proof (induction d arbitrary: k)
  case 0
  then have "(0, int k) \<in> hidden (column_board n k)" by (simp add: column_hidden)
  moreover have "well_shaped (column_board n k)" using 0 by (simp add: column_shape)
  ultimately show ?case
    using 0 by (simp add: RevealEmpty_hidden column_step) (simp add: column_cell)
next
  case (Suc d)
  let ?g = "column_board n k" and ?g1 = "column_board n (Suc k)"
  have k: "k < n" "Suc k \<le> n" using Suc.prems by simp_all
  have w: "well_shaped ?g" "well_shaped ?g1" using k by (simp_all add: column_shape)
  have hid: "(0, int k) \<in> hidden ?g" using k by (simp add: column_hidden)
  have out: "RevealEmpty d ?g1 x y = Inr ?g1" if "x \<noteq> 0 \<or> y < int (Suc k)" for x y
    using w(2) that by (intro RevealEmpty_noop) (auto simp: column_hidden)
  have next_call: "RevealEmpty d ?g1 0 (int k + 1) = Inl (RecursionError, column_board n (k + Suc d + 1))"
    using Suc.IH [of "Suc k"] Suc.prems by (simp add: add.commute)
  have "reveal_all d ?g1 (neighbours 0 (int k)) = Inl (RecursionError, column_board n (k + Suc d + 1))"
    by (simp add: neighbours_def out next_call)
  moreover have "\<not> 0 < count (cell ?g 0 (int k))" using k by (simp add: column_cell)
  ultimately show ?case
    by (simp add: RevealEmpty_hidden [OF w(1) hid] column_step [OF k(1)])
qed

lemma column_newly_revealed:
  assumes "k \<le> n"
  shows "length (newly_revealed (column_board n 0) (column_board n k)) = k"
proof -
  let ?g = "column_board n 0" and ?h = "column_board n k"
  let ?P = "\<lambda>(x, y). type (cell ?h x y) = EMPTY \<and> type (cell ?g x y) \<noteq> EMPTY"
  have "{c \<in> set (coords ?g). ?P c} = (\<lambda>j. (0::int, int j)) ` {..<k}"
  proof (intro set_eqI iffI)
    fix c assume "c \<in> {c \<in> set (coords ?g). ?P c}"
    then obtain y where c: "c = (0, y)" "0 \<le> y" "y < int n" "type (cell ?h 0 y) = EMPTY"
      by (cases c) (auto simp: set_coords column_bounds)
    then obtain j where j: "y = int j" "j < n" by (metis nonneg_int_cases of_nat_less_iff)
    with c(4) have "j < k" by (simp add: column_cell split: if_splits)
    with c(1) j show "c \<in> (\<lambda>j. (0::int, int j)) ` {..<k}" by auto
  next
    fix c assume "c \<in> (\<lambda>j. (0::int, int j)) ` {..<k}"
    then obtain j where "c = (0, int j)" "j < k" by auto
    with assms show "c \<in> {c \<in> set (coords ?g). ?P c}"
      by (simp add: set_coords column_bounds column_cell)
  qed
  moreover have "card ((\<lambda>j. (0::int, int j)) ` {..<k}) = k"
    by (subst card_image) (auto simp: inj_on_def)
  moreover have "length (newly_revealed ?g ?h) = card {c \<in> set (coords ?g). ?P c}"
    unfolding newly_revealed_def
    using distinct_coords [of ?g] by (simp add: distinct_length_filter Int_def conj_commute)
  ultimately show ?thesis by simp
qed

text \<open>
  Claim C8 says that one reveal decreases \<open>pieces_left\<close> by exactly the number of spaces
  that it reveals. On the board of one column and 1000 rows without mines, a click on
  the first space with a stack that admits 993 calls below the first one (the limit of
  1000 frames of the interpreter, less the frames of the main loop and the handler) is
  cut short by \<^verbatim>\<open>RecursionError\<close>: 994 spaces are revealed, and \<open>pieces_left\<close> is still
  1000, because every call decrements it only after its recursive calls have returned.
\<close>

theorem cascade_not_counted:
  "GenerateBoard (startup (Some 1) (Some 1000) (Some 0) False) [] = Some (Inr (column_board 1000 0)) \<and>
   ClickSpace 993 (column_board 1000 0) 0 0 = Inl (RecursionError, column_board 1000 994) \<and>
   length (newly_revealed (column_board 1000 0) (column_board 1000 994)) = 994 \<and>
   pieces_left (column_board 1000 0) = 1000 \<and>
   pieces_left (column_board 1000 994) = 1000"
proof -
  have 1: "GenerateBoard (startup (Some 1) (Some 1000) (Some 0) False) [] =
      Some (Inr (column_board 1000 0))"
    using column_generated [of 1000 "[]"] by simp
  have w: "well_shaped (column_board 1000 0)" by (simp add: column_shape)
  have b: "in_bounds (column_board 1000 0) 0 0" by (simp add: column_bounds)
  have c: "cell (column_board 1000 0) 0 0 = \<lparr>type = HIDDEN, count = 0, flag = False\<rparr>"
    using column_cell [of 1000 0 0] by simp
  have "RevealEmpty 993 (column_board 1000 0) 0 0 = Inl (RecursionError, column_board 1000 994)"
    using column_overflow [of 0 993 1000] by simp
  then have 2: "ClickSpace 993 (column_board 1000 0) 0 0 = Inl (RecursionError, column_board 1000 994)"
    by (simp add: ClickSpace_cell [OF w b] c)
  have 3: "length (newly_revealed (column_board 1000 0) (column_board 1000 994)) = 994"
    by (rule column_newly_revealed) simp
  have 4: "pieces_left (column_board 1000 0) = 1000" "pieces_left (column_board 1000 994) = 1000"
    by (simp_all add: column_board_def)
  from 1 2 3 4 show ?thesis by (intro conjI)
qed

text \<open>
  The region of claim C1, in the words of the specification: the connected region of
  spaces with count 0 that contains \<open>c\<close>, and the spaces of the board that border it.
\<close>

inductive_set cascade_region :: "game \<Rightarrow> int \<times> int \<Rightarrow> (int \<times> int) set"
  for g :: game and c :: "int \<times> int" where
  origin: "c \<in> cascade_region g c"
| spread: "a \<in> cascade_region g c \<Longrightarrow> count (cell g (fst a) (snd a)) = 0 \<Longrightarrow>
     b \<in> set (neighbours (fst a) (snd a)) \<Longrightarrow> in_bounds g (fst b) (snd b) \<Longrightarrow>
     b \<in> cascade_region g c"

lemma column_region:
  "j < n \<Longrightarrow> (0, int j) \<in> cascade_region (column_board n 0) (0, 0)"
proof (induction j)
  case 0
  show ?case using cascade_region.origin [of "(0, 0)" "column_board n 0"] by simp
next
  case (Suc j)
  then have a: "(0, int j) \<in> cascade_region (column_board n 0) (0, 0)" by simp
  have z: "count (cell (column_board n 0) (fst (0, int j)) (snd (0, int j))) = 0"
    using Suc.prems by (simp add: column_cell)
  have n: "(0, int (Suc j)) \<in> set (neighbours (fst (0, int j)) (snd (0, int j)))"
    by (simp add: neighbours_def)
  have b: "in_bounds (column_board n 0) (fst (0, int (Suc j))) (snd (0, int (Suc j)))"
    using Suc.prems by (simp add: column_bounds)
  from a z n b show ?case by (rule cascade_region.spread)
qed

text \<open>
  Claim C1 says that a reveal on a hidden space with count 0 reveals exactly the
  connected region of such spaces and its border. On the board of one column and 1000
  rows without mines that region is the whole board. The click on the first space, with
  a stack that admits 993 calls below the first one, raises \<^verbatim>\<open>RecursionError\<close> after 994
  spaces: the last space of the column belongs to the region and stays hidden.
\<close>

theorem cascade_incomplete:
  "cell (column_board 1000 0) 0 0 = \<lparr>type = HIDDEN, count = 0, flag = False\<rparr> \<and>
   (0, 999) \<in> cascade_region (column_board 1000 0) (0, 0) \<and>
   RevealEmpty 993 (column_board 1000 0) 0 0 = Inl (RecursionError, column_board 1000 994) \<and>
   type (cell (column_board 1000 994) 0 999) = HIDDEN"
proof -
  have 1: "cell (column_board 1000 0) 0 0 = \<lparr>type = HIDDEN, count = 0, flag = False\<rparr>"
    using column_cell [of 1000 0 0] by simp
  have 2: "(0, 999) \<in> cascade_region (column_board 1000 0) (0, 0)"
    using column_region [of 999 1000] by simp
  have 3: "RevealEmpty 993 (column_board 1000 0) 0 0 = Inl (RecursionError, column_board 1000 994)"
    using column_overflow [of 0 993 1000] by simp
  have 4: "type (cell (column_board 1000 994) 0 999) = HIDDEN"
    using column_cell [of 1000 994 999] by simp
  from 1 2 3 4 show ?thesis by (intro conjI)
qed

section \<open>Winning and losing\<close>

text \<open>The board \<open>lone_mine\<close> with a flag on its mine.\<close>

definition flagged_mine :: game where
  "flagged_mine =
     \<lparr>BOARD_WIDTH = 1, BOARD_HEIGHT = 2, TOTAL_MINES = 1, PRINT_DEBUG_INFO = False,
      spaces = [[\<lparr>type = MINE, count = 0, flag = True\<rparr>,
                 \<lparr>type = HIDDEN, count = 1, flag = False\<rparr>]],
      pieces_left = 1, babymode = False, game_state = InProgress\<rparr>"

lemma card_hidden_after:
  assumes "marks g R h" and "R \<subseteq> hidden g"
  shows "int (card (hidden h)) = int (card (hidden g)) - int (card R)"
proof -
  have f: "finite R" using assms(2) finite_hidden by (rule finite_subset)
  have "hidden h = hidden g - R" using assms(1) by (rule marks_hidden)
  then have "card (hidden h) = card (hidden g) - card R"
    using f assms(2) by (simp add: card_Diff_subset)
  moreover have "card R \<le> card (hidden g)" using assms(2) finite_hidden by (intro card_mono)
  ultimately show ?thesis by simp
qed

text \<open>
  Claim C4 says that the game is lost if and only if a reveal targets a mine. A left
  click on the flagged mine of \<open>flagged_mine\<close> (the board \<open>lone_mine\<close> after a right
  click on its mine) targets a mine and changes nothing: the game stays in progress.
\<close>

theorem win_loss_counterexample:
  "RightClickSpace lone_mine 0 0 = Inr flagged_mine \<and>
   type (cell flagged_mine 0 0) = MINE \<and> game_state flagged_mine = InProgress \<and>
   ClickSpace 993 flagged_mine 0 0 = Inr flagged_mine"
proof -
  have 1: "RightClickSpace lone_mine 0 0 = Inr flagged_mine"
    "type (cell flagged_mine 0 0) = MINE" "game_state flagged_mine = InProgress"
    by code_simp+
  have 2: "ClickSpace 0 flagged_mine 0 0 = Inr flagged_mine" by code_simp
  show ?thesis using 1 ClickSpace_deeper [OF 2, of 993] by simp
qed

text \<open>
  Claim C4, as the code has it. On a board in progress whose counter \<open>pieces_left\<close> is
  the number of hidden safe spaces, a left click on a flagged space (a flagged mine
  too) returns the game unchanged. The click loses the game if and only if its target
  is a mine without a flag. It wins the game if and only if it returns and reveals the
  last hidden safe spaces (some were hidden before, none is after); when it returns,
  the counter is again the number of hidden safe spaces. A click that is cut short by
  \<^verbatim>\<open>RecursionError\<close> neither wins nor loses, and leaves the counter above the number of
  hidden safe spaces. The click returns whenever the stack admits as many nested calls
  as the board has hidden safe spaces.
\<close>

theorem win_and_loss:
  assumes "well_shaped g" and "in_bounds g x y"
    and "pieces_left g = int (length (hidden_cells g))" and "game_state g = InProgress"
  shows "(flag (cell g x y) \<longrightarrow> ClickSpace d g x y = Inr g) \<and>
         (game_state (final (ClickSpace d g x y)) = Lost \<longleftrightarrow>
            type (cell g x y) = MINE \<and> \<not> flag (cell g x y)) \<and>
         (game_state (final (ClickSpace d g x y)) = Won \<longleftrightarrow>
            (\<exists>g'. ClickSpace d g x y = Inr g' \<and> hidden_cells g \<noteq> [] \<and> hidden_cells g' = [])) \<and>
         (\<forall>g'. ClickSpace d g x y = Inr g' \<longrightarrow> pieces_left g' = int (length (hidden_cells g'))) \<and>
         (\<forall>e h. ClickSpace d g x y = Inl (e, h) \<longrightarrow>
            e = RecursionError \<and> int (length (hidden_cells h)) < pieces_left h) \<and>
         (length (hidden_cells g) \<le> d \<longrightarrow> (\<exists>g'. ClickSpace d g x y = Inr g'))"
proof (cases "\<not> flag (cell g x y) \<and> type (cell g x y) = HIDDEN")
  case False
  then show ?thesis
    using assms(3,4) by (auto simp: ClickSpace_cell [OF assms(1,2)] GameOver_def)
next
  case True
  have cs: "ClickSpace d g x y = RevealEmpty d g x y"
    using True by (simp add: ClickSpace_cell [OF assms(1,2)])
  have hid: "(x, y) \<in> hidden g" using True assms(2) by (simp add: hidden_def)
  have ne: "hidden_cells g \<noteq> []" using hid set_hidden_cells [of g] by auto
  show ?thesis
  proof (cases "RevealEmpty d g x y")
    case (Inr g')
    let ?R = "flood (hidden g) (zero g) (x, y)"
    have r: "reveals g ?R g'" using assms(1) Inr by (rule RevealEmpty_reveals)
    have m: "marks g ?R g'" using r by (simp add: reveals_def)
    have c: "(x, y) \<in> ?R" using hid by (rule flood.start)
    have p: "pieces_left g' = int (length (hidden_cells g'))"
      using r assms(3) card_hidden_after [OF m flood_subset]
      by (simp add: reveals_def length_hidden_cells)
    have s: "game_state g' = (if pieces_left g' \<le> 0 then Won else InProgress)"
      using r c assms(4) by (auto simp: reveals_def)
    show ?thesis unfolding cs Inr using p s ne True by auto
  next
    case (Inl q)
    obtain e h where q: "q = (e, h)" by (cases q)
    from RevealEmpty_raises [OF assms(1) Inl [unfolded q]]
    have e: "e = RecursionError" and i: "interrupted g h" by simp_all
    from i obtain R where R: "R \<subseteq> hidden g" "marks g R h"
      "pieces_left g < pieces_left h + int (card R)"
      "game_state h = game_state g \<or> game_state h = Won \<and> pieces_left h \<le> 0"
      unfolding interrupted_def by blast
    have above: "int (length (hidden_cells h)) < pieces_left h"
      using R(3) assms(3) card_hidden_after [OF R(2,1)] by (simp add: length_hidden_cells)
    then have s: "game_state h = InProgress" using R(4) assms(4) by auto
    have deep: "\<not> length (hidden_cells g) \<le> d"
    proof
      assume "length (hidden_cells g) \<le> d"
      then have "card (hidden g) \<le> d" by (simp add: length_hidden_cells)
      from RevealEmpty_enough_depth [OF assms(1) this, of x y] Inl show False by auto
    qed
    show ?thesis unfolding cs Inl q using e above s deep True by simp
  qed
qed

theorem win_and_loss_witness:
  "well_shaped lone_mine \<and> in_bounds lone_mine 0 1 \<and>
   pieces_left lone_mine = int (length (hidden_cells lone_mine)) \<and>
   game_state lone_mine = InProgress \<and> length (hidden_cells lone_mine) \<le> 1 \<and>
   (\<exists>g'. ClickSpace 1 lone_mine 0 1 = Inr g' \<and> game_state g' = Won \<and>
      hidden_cells lone_mine \<noteq> [] \<and> hidden_cells g' = [] \<and>
      pieces_left g' = int (length (hidden_cells g'))) \<and>
   type (cell lone_mine 0 0) = MINE \<and> \<not> flag (cell lone_mine 0 0) \<and>
   game_state (final (ClickSpace 1 lone_mine 0 0)) = Lost \<and>
   well_shaped flagged_mine \<and> in_bounds flagged_mine 0 0 \<and>
   pieces_left flagged_mine = int (length (hidden_cells flagged_mine)) \<and>
   game_state flagged_mine = InProgress \<and> flag (cell flagged_mine 0 0) \<and>
   ClickSpace 1 flagged_mine 0 0 = Inr flagged_mine \<and>
   well_shaped flagged_board \<and> in_bounds flagged_board 0 0 \<and>
   pieces_left flagged_board = int (length (hidden_cells flagged_board)) \<and>
   game_state flagged_board = InProgress \<and>
   (\<exists>h. ClickSpace 0 flagged_board 0 0 = Inl (RecursionError, h) \<and>
      int (length (hidden_cells h)) < pieces_left h \<and> game_state h = InProgress)"
proof -
  have a1: "well_shaped lone_mine" by code_simp
  have a2: "in_bounds lone_mine 0 1" by code_simp
  have a3: "pieces_left lone_mine = int (length (hidden_cells lone_mine))" by code_simp
  have a4: "game_state lone_mine = InProgress" by code_simp
  have a5: "length (hidden_cells lone_mine) \<le> 1" by code_simp
  have a6: "in_bounds lone_mine 0 0" by code_simp
  have a7: "type (cell lone_mine 0 0) = MINE" by code_simp
  have a8: "\<not> flag (cell lone_mine 0 0)" by code_simp
  have b1: "well_shaped flagged_mine" by code_simp
  have b2: "in_bounds flagged_mine 0 0" by code_simp
  have b3: "pieces_left flagged_mine = int (length (hidden_cells flagged_mine))" by code_simp
  have b4: "game_state flagged_mine = InProgress" by code_simp
  have b5: "flag (cell flagged_mine 0 0)" by code_simp
  have c1: "well_shaped flagged_board" by code_simp
  have c2: "in_bounds flagged_board 0 0" by code_simp
  have c3: "pieces_left flagged_board = int (length (hidden_cells flagged_board))" by code_simp
  have c4: "game_state flagged_board = InProgress" by code_simp
  have c5: "ClickSpace 0 flagged_board 0 0 =
     Inl (RecursionError, put_space flagged_board 0 0 \<lparr>type = EMPTY, count = 0, flag = False\<rparr>)"
    by code_simp
  note t1 = win_and_loss [OF a1 a2 a3 a4, of 1]
  note t2 = win_and_loss [OF a1 a6 a3 a4, of 1]
  note t3 = win_and_loss [OF b1 b2 b3 b4, of 1]
  note t4 = win_and_loss [OF c1 c2 c3 c4, of 0]
  have e1: "ClickSpace 1 lone_mine 0 1 = Inr won_board" by code_simp
  have e2: "hidden_cells won_board = []" by code_simp
  have e3: "hidden_cells lone_mine \<noteq> []" by code_simp
  from t1 e1 e2 e3 have "game_state won_board = Won \<and>
      pieces_left won_board = int (length (hidden_cells won_board))"
    by simp
  then have w: "\<exists>g'. ClickSpace 1 lone_mine 0 1 = Inr g' \<and> game_state g' = Won \<and>
      hidden_cells lone_mine \<noteq> [] \<and> hidden_cells g' = [] \<and>
      pieces_left g' = int (length (hidden_cells g'))"
    using e1 e2 e3 by blast
  from t2 a7 a8 have l: "game_state (final (ClickSpace 1 lone_mine 0 0)) = Lost" by blast
  from t3 b5 have f: "ClickSpace 1 flagged_mine 0 0 = Inr flagged_mine" by blast
  from t4 c5 have "int (length (hidden_cells
        (put_space flagged_board 0 0 \<lparr>type = EMPTY, count = 0, flag = False\<rparr>)))
      < pieces_left (put_space flagged_board 0 0 \<lparr>type = EMPTY, count = 0, flag = False\<rparr>)"
    by blast
  moreover have "game_state (put_space flagged_board 0 0 \<lparr>type = EMPTY, count = 0, flag = False\<rparr>)
      = InProgress" by code_simp
  ultimately have r: "\<exists>h. ClickSpace 0 flagged_board 0 0 = Inl (RecursionError, h) \<and>
      int (length (hidden_cells h)) < pieces_left h \<and> game_state h = InProgress"
    using c5 by blast
  from a1 a2 a3 a4 a5 w a7 a8 l b1 b2 b3 b4 b5 f c1 c2 c3 c4 r show ?thesis by (intro conjI)
qed

section \<open>Generation of the board\<close>

text \<open>The number of mines around a space, the check that every count on the board is
  that number, and the mines of the board.\<close>

definition adjacent_mines :: "game \<Rightarrow> int \<Rightarrow> int \<Rightarrow> nat" where
  "adjacent_mines g x y =
     length (filter (\<lambda>(a, b). in_bounds g a b \<and> type (cell g a b) = MINE) (neighbours x y))"

definition counts_ok :: "game \<Rightarrow> bool" where
  "counts_ok g \<longleftrightarrow>
     list_all (\<lambda>(x, y). count (cell g x y) = int (adjacent_mines g x y)) (coords g)"

definition mine_cells :: "game \<Rightarrow> (int \<times> int) list" where
  "mine_cells g = filter (\<lambda>(x, y). type (cell g x y) = MINE) (coords g)"

text \<open>\<open>g'\<close> is \<open>g\<close> with the count of every space raised by its number of occurrences
  in \<open>cs\<close>.\<close>

definition adds :: "game \<Rightarrow> (int \<times> int) list \<Rightarrow> game \<Rightarrow> bool" where
  "adds g cs g' \<longleftrightarrow>
     BOARD_WIDTH g' = BOARD_WIDTH g \<and> BOARD_HEIGHT g' = BOARD_HEIGHT g \<and>
     TOTAL_MINES g' = TOTAL_MINES g \<and> PRINT_DEBUG_INFO g' = PRINT_DEBUG_INFO g \<and>
     babymode g' = babymode g \<and> pieces_left g' = pieces_left g \<and>
     game_state g' = game_state g \<and> well_shaped g' \<and>
     (\<forall>x y. in_bounds g x y \<longrightarrow>
        cell g' x y = (cell g x y)\<lparr>count := count (cell g x y) + int (count_list cs (x, y))\<rparr>)"

lemma adds_bounds: "adds g cs g' \<Longrightarrow> in_bounds g' x y = in_bounds g x y"
  by (simp add: adds_def in_bounds_def)

lemma adds_cell:
  "adds g cs g' \<Longrightarrow> in_bounds g x y \<Longrightarrow>
   cell g' x y = (cell g x y)\<lparr>count := count (cell g x y) + int (count_list cs (x, y))\<rparr>"
  by (simp add: adds_def)

lemma adds_trans:
  assumes "adds g cs g1" "adds g1 cs' g2"
  shows "adds g (cs @ cs') g2"
proof -
  have "cell g2 x y = (cell g x y)\<lparr>count := count (cell g x y) + int (count_list (cs @ cs') (x, y))\<rparr>"
    if "in_bounds g x y" for x y
    using that adds_cell [OF assms(1), of x y] adds_cell [OF assms(2), of x y]
      adds_bounds [OF assms(1), of x y]
    by simp
  then show ?thesis using assms by (simp add: adds_def)
qed

lemma AddCount_adds:
  assumes "well_shaped g"
  shows "\<exists>g'. AddCount g x y = Inr g' \<and> adds g [(x, y)] g'"
proof (cases "in_bounds g x y")
  case True
  have "adds g [(x, y)] (put_space g x y ((cell g x y)\<lparr>count := count (cell g x y) + 1\<rparr>))"
    using assms True by (auto simp: adds_def well_shaped_put cell_put)
  then show ?thesis
    using True assms by (simp add: AddCount_def get_space_cell in_bounds_def [symmetric])
next
  case False
  have "adds g [(x, y)] g" using assms False by (auto simp: adds_def)
  then show ?thesis using False by (simp add: AddCount_def in_bounds_def [symmetric])
qed

lemma bind_adds:
  assumes "\<exists>g1. m = Inr g1 \<and> adds g cs g1"
    and "\<And>g1. adds g cs g1 \<Longrightarrow> \<exists>g2. f g1 = Inr g2 \<and> adds g1 cs' g2"
  shows "\<exists>g2. bind m f = Inr g2 \<and> adds g (cs @ cs') g2"
proof -
  from assms(1) obtain g1 where 1: "m = Inr g1" "adds g cs g1" by auto
  from assms(2) [OF 1(2)] obtain g2 where 2: "f g1 = Inr g2" "adds g1 cs' g2" by auto
  from 1 2 show ?thesis by (auto intro: adds_trans)
qed

lemma adds_shape: "adds g cs g' \<Longrightarrow> well_shaped g'"
  by (simp add: adds_def)

lemma AddCount_neighbours:
  assumes "well_shaped g"
  shows "\<exists>g'. bind (AddCount g (x - 1) (y - 1)) (\<lambda>g2.
     bind (AddCount g2 (x - 1) y) (\<lambda>g3.
     bind (AddCount g3 (x - 1) (y + 1)) (\<lambda>g4.
     bind (AddCount g4 x (y - 1)) (\<lambda>g5.
     bind (AddCount g5 x (y + 1)) (\<lambda>g6.
     bind (AddCount g6 (x + 1) (y - 1)) (\<lambda>g7.
     bind (AddCount g7 (x + 1) y) (\<lambda>g8.
     AddCount g8 (x + 1) (y + 1)))))))) = Inr g' \<and> adds g (neighbours x y) g'"
proof -
  have n: "neighbours x y = [(x - 1, y - 1)] @ [(x - 1, y)] @ [(x - 1, y + 1)] @ [(x, y - 1)] @
     [(x, y + 1)] @ [(x + 1, y - 1)] @ [(x + 1, y)] @ [(x + 1, y + 1)]"
    by (simp add: neighbours_def)
  show ?thesis
    unfolding n
    by (intro bind_adds AddCount_adds assms adds_shape | assumption)+
qed

text \<open>No space of the board is revealed or flagged.\<close>

definition unplayed :: "game \<Rightarrow> bool" where
  "unplayed g \<longleftrightarrow>
     list_all (\<lambda>(x, y). type (cell g x y) \<noteq> EMPTY \<and> \<not> flag (cell g x y)) (coords g)"

text \<open>\<open>g'\<close> is \<open>g\<close> after a mine is placed at \<open>(x, y)\<close>.\<close>

definition placed :: "game \<Rightarrow> int \<Rightarrow> int \<Rightarrow> game \<Rightarrow> bool" where
  "placed g x y g' \<longleftrightarrow>
     BOARD_WIDTH g' = BOARD_WIDTH g \<and> BOARD_HEIGHT g' = BOARD_HEIGHT g \<and>
     TOTAL_MINES g' = TOTAL_MINES g \<and> PRINT_DEBUG_INFO g' = PRINT_DEBUG_INFO g \<and>
     babymode g' = babymode g \<and> pieces_left g' = pieces_left g \<and>
     game_state g' = game_state g \<and> well_shaped g' \<and>
     (\<forall>a b. in_bounds g a b \<longrightarrow>
        cell g' a b =
          (if (a, b) = (x, y) then (cell g x y)\<lparr>type := MINE\<rparr>
           else (cell g a b)\<lparr>count := count (cell g a b) +
                   (if (a, b) \<in> set (neighbours x y) then 1 else 0)\<rparr>))"

lemma distinct_neighbours: "distinct (neighbours x y)"
  by (simp add: neighbours_def)

lemma not_own_neighbour: "(x, y) \<notin> set (neighbours x y)"
  by (simp add: neighbours_def)

lemma neighbours_iff:
  "(a, b) \<in> set (neighbours x y) \<longleftrightarrow>
     (a = x - 1 \<or> a = x \<or> a = x + 1) \<and> (b = y - 1 \<or> b = y \<or> b = y + 1) \<and> \<not> (a = x \<and> b = y)"
  unfolding neighbours_def by simp linarith

lemma neighbours_sym: "(x, y) \<in> set (neighbours a b) \<longleftrightarrow> (a, b) \<in> set (neighbours x y)"
  unfolding neighbours_iff by linarith

lemma count_list_distinct:
  "distinct cs \<Longrightarrow> count_list cs c = (if c \<in> set cs then 1 else 0)"
  by (induction cs) auto

lemma count_list_neighbours:
  "count_list (neighbours x y) c = (if c \<in> set (neighbours x y) then 1 else 0)"
  using distinct_neighbours [of x y] by (rule count_list_distinct)

lemma place_mine_placed:
  assumes "well_shaped g" and "in_bounds g x y"
  shows "\<exists>g'. place_mine g x y = Inr g' \<and> placed g x y g'"
proof -
  define g1 where "g1 = put_space g x y ((cell g x y)\<lparr>type := MINE\<rparr>)"
  have w1: "well_shaped g1" using assms(1) by (simp add: g1_def well_shaped_put)
  from AddCount_neighbours [OF w1, of x y] obtain g' where
    g': "bind (AddCount g1 (x - 1) (y - 1)) (\<lambda>g2.
     bind (AddCount g2 (x - 1) y) (\<lambda>g3.
     bind (AddCount g3 (x - 1) (y + 1)) (\<lambda>g4.
     bind (AddCount g4 x (y - 1)) (\<lambda>g5.
     bind (AddCount g5 x (y + 1)) (\<lambda>g6.
     bind (AddCount g6 (x + 1) (y - 1)) (\<lambda>g7.
     bind (AddCount g7 (x + 1) y) (\<lambda>g8.
     AddCount g8 (x + 1) (y + 1)))))))) = Inr g'" and a: "adds g1 (neighbours x y) g'"
    by blast
  have 1: "place_mine g x y = Inr g'"
    unfolding place_mine_def get_space_cell [OF assms] bind_Inr Let_def g1_def [symmetric]
    by (rule g')
  have c1: "cell g1 a b = (if (a, b) = (x, y) then (cell g x y)\<lparr>type := MINE\<rparr> else cell g a b)"
    if "in_bounds g a b" for a b
    using cell_put [OF assms that] by (simp add: g1_def)
  have c: "cell g' a b =
          (if (a, b) = (x, y) then (cell g x y)\<lparr>type := MINE\<rparr>
           else (cell g a b)\<lparr>count := count (cell g a b) +
                   (if (a, b) \<in> set (neighbours x y) then 1 else 0)\<rparr>)"
    if ib: "in_bounds g a b" for a b
  proof -
    have "in_bounds g1 a b" using ib by (simp add: g1_def)
    from adds_cell [OF a this]
    have e: "cell g' a b = (cell g1 a b)\<lparr>count := count (cell g1 a b) +
        int (count_list (neighbours x y) (a, b))\<rparr>" .
    show ?thesis
    proof (cases "(a, b) = (x, y)")
      case True
      then have "count_list (neighbours x y) (a, b) = 0"
        using not_own_neighbour [of x y] by simp
      moreover have "cell g1 a b = (cell g x y)\<lparr>type := MINE\<rparr>"
        using c1 [OF ib] True by (simp only: if_P)
      ultimately have "cell g' a b = (cell g x y)\<lparr>type := MINE\<rparr>" using e by simp
      then show ?thesis by (simp only: True if_P)
    next
      case False
      have "int (count_list (neighbours x y) (a, b)) = (if (a, b) \<in> set (neighbours x y) then 1 else 0)"
        unfolding count_list_neighbours by simp
      moreover have "cell g1 a b = cell g a b" using c1 [OF ib] False by (simp only: if_False)
      ultimately have "cell g' a b = (cell g a b)\<lparr>count := count (cell g a b) +
                   (if (a, b) \<in> set (neighbours x y) then 1 else 0)\<rparr>"
        using e by simp
      then show ?thesis using False by (simp only: if_False)
    qed
  qed
  have w': "well_shaped g'" using a by (rule adds_shape)
  have f: "BOARD_WIDTH g' = BOARD_WIDTH g" "BOARD_HEIGHT g' = BOARD_HEIGHT g"
    "TOTAL_MINES g' = TOTAL_MINES g" "PRINT_DEBUG_INFO g' = PRINT_DEBUG_INFO g"
    "babymode g' = babymode g" "pieces_left g' = pieces_left g" "game_state g' = game_state g"
    using a unfolding adds_def g1_def by simp_all
  have "placed g x y g'"
    unfolding placed_def
    by (intro conjI allI impI f w' c)
  with 1 show ?thesis by blast
qed

lemma counts_ok_iff:
  "counts_ok g \<longleftrightarrow> (\<forall>x y. in_bounds g x y \<longrightarrow> count (cell g x y) = int (adjacent_mines g x y))"
  by (auto simp: counts_ok_def list_all_iff set_coords)

lemma unplayed_iff:
  "unplayed g \<longleftrightarrow> (\<forall>x y. in_bounds g x y \<longrightarrow> type (cell g x y) \<noteq> EMPTY \<and> \<not> flag (cell g x y))"
  by (auto simp: unplayed_def list_all_iff set_coords)

lemma filter_extra:
  "\<not> P z \<Longrightarrow> length (filter (\<lambda>c. P c \<or> c = z) cs) = length (filter P cs) + count_list cs z"
  by (induction cs) auto

lemma placed_bounds: "placed g x y g' \<Longrightarrow> in_bounds g' a b = in_bounds g a b"
  by (simp add: placed_def in_bounds_def)

lemma placed_coords: "placed g x y g' \<Longrightarrow> coords g' = coords g"
  by (simp add: placed_def coords_def)

lemma placed_cell:
  "placed g x y g' \<Longrightarrow> in_bounds g a b \<Longrightarrow>
   cell g' a b =
          (if (a, b) = (x, y) then (cell g x y)\<lparr>type := MINE\<rparr>
           else (cell g a b)\<lparr>count := count (cell g a b) +
                   (if (a, b) \<in> set (neighbours x y) then 1 else 0)\<rparr>)"
  by (simp add: placed_def)

lemma placed_mine_iff:
  assumes "placed g x y g'" "in_bounds g x y"
  shows "(in_bounds g' a b \<and> type (cell g' a b) = MINE) \<longleftrightarrow>
         ((in_bounds g a b \<and> type (cell g a b) = MINE) \<or> (a, b) = (x, y))"
  using placed_cell [OF assms(1), of a b] placed_bounds [OF assms(1), of a b] assms(2)
  by (cases "in_bounds g a b") auto

lemma placed_adjacent:
  assumes "placed g x y g'" "in_bounds g x y" "type (cell g x y) \<noteq> MINE"
  shows "adjacent_mines g' a b =
           adjacent_mines g a b + (if (a, b) \<in> set (neighbours x y) then 1 else 0)"
proof -
  define P where "P = (\<lambda>c. in_bounds g (fst c) (snd c) \<and> type (cell g (fst c) (snd c)) = MINE)"
  have e: "filter (\<lambda>(a, b). in_bounds g' a b \<and> type (cell g' a b) = MINE) (neighbours a b)
         = filter (\<lambda>c. P c \<or> c = (x, y)) (neighbours a b)"
  proof (rule filter_cong [OF refl])
    fix c assume "c \<in> set (neighbours a b)"
    show "(case c of (a, b) \<Rightarrow> in_bounds g' a b \<and> type (cell g' a b) = MINE) = (P c \<or> c = (x, y))"
      using placed_mine_iff [OF assms(1,2), of "fst c" "snd c"]
      by (cases c) (simp add: P_def)
  qed
  have p: "filter (\<lambda>(a, b). in_bounds g a b \<and> type (cell g a b) = MINE) (neighbours a b)
         = filter P (neighbours a b)"
    by (rule filter_cong [OF refl]) (simp add: P_def split_beta)
  have "\<not> P (x, y)" using assms(3) by (simp add: P_def)
  then have "length (filter (\<lambda>c. P c \<or> c = (x, y)) (neighbours a b))
      = length (filter P (neighbours a b)) + count_list (neighbours a b) (x, y)"
    by (rule filter_extra)
  moreover have "count_list (neighbours a b) (x, y) = (if (a, b) \<in> set (neighbours x y) then 1 else 0)"
    unfolding count_list_neighbours using neighbours_sym [of x y a b] by simp
  ultimately show ?thesis
    by (simp only: adjacent_mines_def e p)
qed

lemma placed_counts_ok:
  assumes "placed g x y g'" "in_bounds g x y" "type (cell g x y) \<noteq> MINE" "counts_ok g"
  shows "counts_ok g'"
  unfolding counts_ok_iff
proof (intro allI impI)
  fix a b assume "in_bounds g' a b"
  then have ib: "in_bounds g a b" using placed_bounds [OF assms(1)] by simp
  with assms(4) have c: "count (cell g a b) = int (adjacent_mines g a b)"
    by (simp add: counts_ok_iff)
  show "count (cell g' a b) = int (adjacent_mines g' a b)"
  proof (cases "(a, b) = (x, y)")
    case True
    then have "count (cell g' a b) = count (cell g a b)"
      using placed_cell [OF assms(1) ib] by simp
    moreover have "adjacent_mines g' a b = adjacent_mines g a b"
      using placed_adjacent [OF assms(1-3), of a b] True not_own_neighbour [of x y] by simp
    ultimately show ?thesis using c by simp
  next
    case False
    then have "cell g' a b = (cell g a b)\<lparr>count := count (cell g a b) +
                   (if (a, b) \<in> set (neighbours x y) then 1 else 0)\<rparr>"
      using placed_cell [OF assms(1) ib] by (simp only: if_False)
    then have "count (cell g' a b) =
        count (cell g a b) + (if (a, b) \<in> set (neighbours x y) then 1 else 0)"
      by simp
    then show ?thesis
      using placed_adjacent [OF assms(1-3), of a b] c by simp
  qed
qed

lemma placed_unplayed:
  assumes "placed g x y g'" "unplayed g" "in_bounds g x y"
  shows "unplayed g'"
  unfolding unplayed_iff
proof (intro allI impI)
  fix a b assume "in_bounds g' a b"
  then have ib: "in_bounds g a b" using placed_bounds [OF assms(1)] by simp
  with assms(2,3) show "type (cell g' a b) \<noteq> EMPTY \<and> \<not> flag (cell g' a b)"
    using placed_cell [OF assms(1) ib] by (auto simp: unplayed_iff)
qed

lemma placed_mine_cells:
  assumes "placed g x y g'" "in_bounds g x y" "type (cell g x y) \<noteq> MINE"
  shows "length (mine_cells g') = Suc (length (mine_cells g))"
proof -
  let ?P = "\<lambda>c. type (cell g (fst c) (snd c)) = MINE"
  have "type (cell g' a b) = MINE \<longleftrightarrow> type (cell g a b) = MINE \<or> (a, b) = (x, y)"
    if "in_bounds g a b" for a b
    using placed_cell [OF assms(1) that] by auto
  then have "filter (\<lambda>(a, b). type (cell g' a b) = MINE) (coords g)
      = filter (\<lambda>c. ?P c \<or> c = (x, y)) (coords g)"
    by (intro filter_cong refl) (auto simp: set_coords)
  moreover have "(\<lambda>(a, b). type (cell g a b) = MINE) = ?P" by (auto simp: fun_eq_iff)
  moreover have "count_list (coords g) (x, y) = 1"
    using distinct_coords [of g] assms(2) by (simp add: count_list_distinct set_coords)
  ultimately show ?thesis
    using filter_extra [of ?P "(x, y)" "coords g"] assms(3)
    by (simp add: mine_cells_def placed_coords [OF assms(1)])
qed

lemma rbind_Some_Inr [simp]: "rbind (Some (Inr v)) f = f v"
  by (simp add: rbind_def)

lemma rbind_eq_Inr:
  "rbind m f = Some (Inr r) \<longleftrightarrow> (\<exists>v. m = Some (Inr v) \<and> f v = Some (Inr r))"
  by (auto simp: rbind_def split: option.splits sum.splits)

lemma rbind_eq_Inl:
  "rbind m f = Some (Inl e) \<longleftrightarrow> m = Some (Inl e) \<or> (\<exists>v. m = Some (Inr v) \<and> f v = Some (Inl e))"
  by (auto simp: rbind_def split: option.splits sum.splits)

lemma randint_range:
  "randint 0 (n - 1) rs = Some (Inr (v, rs')) \<Longrightarrow> 0 \<le> v \<and> v < n"
  by (auto simp: randint_def split: if_splits list.splits)

lemma randint_no_error: "0 < n \<Longrightarrow> randint 0 (n - 1) rs \<noteq> Some (Inl e)"
  by (auto simp: randint_def split: list.splits)

lemma randint_hit: "0 \<le> v \<Longrightarrow> v < n \<Longrightarrow> randint 0 (n - 1) (v # rs) = Some (Inr (v, rs))"
  by (simp add: randint_def)

declare while_mine.simps [simp del]

lemma while_mine_free:
  "while_mine g x y rs = Some (Inr (x', y', rs')) \<Longrightarrow> well_shaped g \<Longrightarrow> in_bounds g x y \<Longrightarrow>
   in_bounds g x' y' \<and> type (cell g x' y') \<noteq> MINE"
proof (induction g x y rs rule: while_mine.induct)
  case (1 g x y rs)
  show ?case
  proof (cases "type (cell g x y) = MINE")
    case False
    with "1.prems" show ?thesis
      by (subst (asm) while_mine.simps) (simp add: get_space_cell)
  next
    case True
    from "1.prems" True obtain y1 rs1 x1 rs2 where
      r: "randint 0 (BOARD_HEIGHT g - 1) rs = Some (Inr (y1, rs1))"
         "randint 0 (BOARD_WIDTH g - 1) rs1 = Some (Inr (x1, rs2))"
         "while_mine g x1 y1 rs2 = Some (Inr (x', y', rs'))"
      by (subst (asm) while_mine.simps) (auto simp: get_space_cell rbind_eq_Inr)
    have "in_bounds g x1 y1"
      using randint_range [OF r(1)] randint_range [OF r(2)] by (simp add: in_bounds_def)
    with "1.IH" [OF _ True r(1) refl r(2) refl r(3) "1.prems"(2)] "1.prems"(2,3) show ?thesis
      by (simp add: get_space_cell)
  qed
qed

lemma while_mine_no_error:
  "well_shaped g \<Longrightarrow> in_bounds g x y \<Longrightarrow> while_mine g x y rs \<noteq> Some (Inl e)"
proof (induction g x y rs rule: while_mine.induct)
  case (1 g x y rs)
  have pos: "0 < BOARD_HEIGHT g" "0 < BOARD_WIDTH g" using "1.prems"(2) by (auto simp: in_bounds_def)
  show ?case
  proof (cases "type (cell g x y) = MINE")
    case False
    with "1.prems" show ?thesis
      by (subst while_mine.simps) (simp add: get_space_cell)
  next
    case True
    show ?thesis
    proof
      assume a: "while_mine g x y rs = Some (Inl e)"
      from a True "1.prems" randint_no_error [OF pos(1)] randint_no_error [OF pos(2)]
      obtain y1 rs1 x1 rs2 where
        r: "randint 0 (BOARD_HEIGHT g - 1) rs = Some (Inr (y1, rs1))"
           "randint 0 (BOARD_WIDTH g - 1) rs1 = Some (Inr (x1, rs2))"
           "while_mine g x1 y1 rs2 = Some (Inl e)"
        by (subst (asm) while_mine.simps) (auto simp: get_space_cell rbind_eq_Inl)
      have "in_bounds g x1 y1"
        using randint_range [OF r(1)] randint_range [OF r(2)] by (simp add: in_bounds_def)
      with "1.IH" [OF _ True r(1) refl r(2) refl "1.prems"(1)] "1.prems" r(3) show False
        by (simp add: get_space_cell)
    qed
  qed
qed

lemma while_mine_hit:
  "well_shaped g \<Longrightarrow> in_bounds g x y \<Longrightarrow> type (cell g x y) \<noteq> MINE \<Longrightarrow>
   while_mine g x y rs = Some (Inr (x, y, rs))"
  by (subst while_mine.simps) (simp add: get_space_cell)

text \<open>A board as the placement loop sees it: well shaped, with correct counts and
  nothing revealed or flagged.\<close>

definition fresh :: "game \<Rightarrow> bool" where
  "fresh g \<longleftrightarrow> well_shaped g \<and> counts_ok g \<and> unplayed g"

text \<open>The variables that the placement of mines does not touch.\<close>

definition same_globals :: "game \<Rightarrow> game \<Rightarrow> bool" where
  "same_globals g g' \<longleftrightarrow>
     BOARD_WIDTH g' = BOARD_WIDTH g \<and> BOARD_HEIGHT g' = BOARD_HEIGHT g \<and>
     TOTAL_MINES g' = TOTAL_MINES g \<and> PRINT_DEBUG_INFO g' = PRINT_DEBUG_INFO g \<and>
     babymode g' = babymode g \<and> pieces_left g' = pieces_left g \<and>
     game_state g' = game_state g"

lemma placed_globals: "placed g x y g' \<Longrightarrow> same_globals g g'"
  by (simp add: placed_def same_globals_def)

lemma placed_fresh:
  assumes "placed g x y g'" "in_bounds g x y" "type (cell g x y) \<noteq> MINE" "fresh g"
  shows "fresh g'"
  using assms placed_counts_ok [OF assms(1-3)] placed_unplayed [OF assms(1) _ assms(2)]
  by (simp add: fresh_def placed_def)

lemma place_mines_Suc:
  "place_mines (Suc n) g rs = Some (Inr b) \<longleftrightarrow>
     (\<exists>y rs1 x rs2 x' y' rs3 g'.
        randint 0 (BOARD_HEIGHT g - 1) rs = Some (Inr (y, rs1)) \<and>
        randint 0 (BOARD_WIDTH g - 1) rs1 = Some (Inr (x, rs2)) \<and>
        while_mine g x y rs2 = Some (Inr (x', y', rs3)) \<and>
        place_mine g x' y' = Inr g' \<and> place_mines n g' rs3 = Some (Inr b))"
  by (auto simp: rbind_eq_Inr)

lemma place_mines_inv:
  "place_mines n g rs = Some (Inr b) \<Longrightarrow> fresh g \<Longrightarrow>
   fresh b \<and> same_globals g b \<and> length (mine_cells b) = length (mine_cells g) + n"
proof (induction n arbitrary: g rs)
  case 0
  then show ?case by (simp add: same_globals_def)
next
  case (Suc n)
  from Suc.prems(1) obtain y rs1 x rs2 x' y' rs3 g' where
    r: "randint 0 (BOARD_HEIGHT g - 1) rs = Some (Inr (y, rs1))"
       "randint 0 (BOARD_WIDTH g - 1) rs1 = Some (Inr (x, rs2))" and
    w: "while_mine g x y rs2 = Some (Inr (x', y', rs3))" and
    p: "place_mine g x' y' = Inr g'" and
    m: "place_mines n g' rs3 = Some (Inr b)"
    unfolding place_mines_Suc by blast
  have ws: "well_shaped g" using Suc.prems(2) by (simp add: fresh_def)
  have "in_bounds g x y"
    using randint_range [OF r(1)] randint_range [OF r(2)] by (simp add: in_bounds_def)
  from while_mine_free [OF w ws this] have f: "in_bounds g x' y'" "type (cell g x' y') \<noteq> MINE"
    by simp_all
  from place_mine_placed [OF ws f(1)] p have pl: "placed g x' y' g'" by simp
  have fr: "fresh g'" using pl f Suc.prems(2) by (rule placed_fresh)
  from Suc.IH [OF m fr] have
    "fresh b" "same_globals g' b" "length (mine_cells b) = length (mine_cells g') + n"
    by simp_all
  then show ?case
    using placed_globals [OF pl] placed_mine_cells [OF pl f]
    by (simp add: same_globals_def)
qed

lemma place_mines_no_error:
  "fresh g \<Longrightarrow> n = 0 \<or> (0 < BOARD_WIDTH g \<and> 0 < BOARD_HEIGHT g) \<Longrightarrow>
   place_mines n g rs \<noteq> Some (Inl e)"
proof (induction n arbitrary: g rs)
  case 0
  show ?case by simp
next
  case (Suc n)
  then have pos: "0 < BOARD_WIDTH g" "0 < BOARD_HEIGHT g" by simp_all
  have ws: "well_shaped g" using Suc.prems(1) by (simp add: fresh_def)
  show ?case
  proof
    assume a: "place_mines (Suc n) g rs = Some (Inl e)"
    from a randint_no_error [OF pos(2)] obtain y rs1 where
      r1: "randint 0 (BOARD_HEIGHT g - 1) rs = Some (Inr (y, rs1))" and
      a1: "rbind (randint 0 (BOARD_WIDTH g - 1) rs1) (\<lambda>(x, rs2).
             rbind (while_mine g x y rs2) (\<lambda>(x, y, rs3).
             rbind (Some (place_mine g x y)) (\<lambda>g'. place_mines n g' rs3))) = Some (Inl e)"
      by (auto simp: rbind_eq_Inl)
    from a1 randint_no_error [OF pos(1)] obtain x rs2 where
      r2: "randint 0 (BOARD_WIDTH g - 1) rs1 = Some (Inr (x, rs2))" and
      a2: "rbind (while_mine g x y rs2) (\<lambda>(x, y, rs3).
             rbind (Some (place_mine g x y)) (\<lambda>g'. place_mines n g' rs3)) = Some (Inl e)"
      by (auto simp: rbind_eq_Inl)
    have ib: "in_bounds g x y"
      using randint_range [OF r1] randint_range [OF r2] by (simp add: in_bounds_def)
    from a2 while_mine_no_error [OF ws ib] obtain x' y' rs3 where
      w: "while_mine g x y rs2 = Some (Inr (x', y', rs3))" and
      a3: "rbind (Some (place_mine g x' y')) (\<lambda>g'. place_mines n g' rs3) = Some (Inl e)"
      by (auto simp: rbind_eq_Inl)
    from while_mine_free [OF w ws ib] have f: "in_bounds g x' y'" "type (cell g x' y') \<noteq> MINE"
      by simp_all
    from place_mine_placed [OF ws f(1)] obtain g' where
      p: "place_mine g x' y' = Inr g'" and pl: "placed g x' y' g'" by auto
    have fr: "fresh g'" using pl f Suc.prems(1) by (rule placed_fresh)
    have "0 < BOARD_WIDTH g' \<and> 0 < BOARD_HEIGHT g'"
      using pos placed_globals [OF pl] by (simp add: same_globals_def)
    from Suc.IH [OF fr disjI2 [OF this]] a3 p show False by simp
  qed
qed

lemma free_cell:
  assumes "length (mine_cells g) < length (coords g)"
  shows "\<exists>x y. in_bounds g x y \<and> type (cell g x y) \<noteq> MINE"
proof (rule ccontr)
  assume "\<not> ?thesis"
  then have "filter (\<lambda>(x, y). type (cell g x y) = MINE) (coords g) = coords g"
    by (auto simp: filter_id_conv set_coords)
  with assms show False by (simp add: mine_cells_def)
qed

text \<open>The game at the start of the placement loop of \<open>GenerateBoard\<close>.\<close>

definition cleared :: "game \<Rightarrow> game" where
  "cleared g =
     g\<lparr>spaces := ClearBoard g,
       pieces_left := (BOARD_HEIGHT g * BOARD_WIDTH g) - TOTAL_MINES g,
       babymode := False\<rparr>"

lemma GenerateBoard_cleared: "GenerateBoard g rs = place_mines (nat (TOTAL_MINES g)) (cleared g) rs"
  by (simp add: GenerateBoard_def cleared_def)

lemma cleared_fields [simp]:
  "BOARD_WIDTH (cleared g) = BOARD_WIDTH g"
  "BOARD_HEIGHT (cleared g) = BOARD_HEIGHT g"
  "TOTAL_MINES (cleared g) = TOTAL_MINES g"
  "PRINT_DEBUG_INFO (cleared g) = PRINT_DEBUG_INFO g"
  "game_state (cleared g) = game_state g"
  "pieces_left (cleared g) = (BOARD_HEIGHT g * BOARD_WIDTH g) - TOTAL_MINES g"
  by (simp_all add: cleared_def)

lemma cleared_shape: "well_shaped (cleared g)"
  by (simp add: well_shaped_def cleared_def ClearBoard_def list_all_length)

lemma cleared_bounds [simp]: "in_bounds (cleared g) x y = in_bounds g x y"
  by (simp add: in_bounds_def)

lemma cleared_cell:
  "in_bounds g x y \<Longrightarrow> cell (cleared g) x y = \<lparr>type = HIDDEN, count = 0, flag = False\<rparr>"
  by (simp add: cell_def cleared_def ClearBoard_def in_bounds_def)

lemma cleared_coords [simp]: "coords (cleared g) = coords g"
  by (simp add: coords_def)

lemma cleared_mines: "mine_cells (cleared g) = []"
  by (auto simp: mine_cells_def filter_empty_conv set_coords cleared_cell)

lemma cleared_fresh: "fresh (cleared g)"
proof -
  have "adjacent_mines (cleared g) x y = 0" for x y
    by (auto simp: adjacent_mines_def filter_empty_conv cleared_cell)
  then have "counts_ok (cleared g)"
    by (simp add: counts_ok_iff cleared_cell)
  moreover have "unplayed (cleared g)"
    by (simp add: unplayed_iff cleared_cell)
  ultimately show ?thesis by (simp add: fresh_def cleared_shape)
qed

lemma length_coords: "length (coords g) = nat (BOARD_WIDTH g) * nat (BOARD_HEIGHT g)"
  by (simp add: coords_def)

lemma distinct_mine_cells: "distinct (mine_cells g)"
  by (simp add: mine_cells_def distinct_coords)

lemma GenerateBoard_inv:
  assumes "GenerateBoard g rs = Some (Inr b)"
  shows "fresh b" and "BOARD_WIDTH b = BOARD_WIDTH g" and "BOARD_HEIGHT b = BOARD_HEIGHT g"
    and "TOTAL_MINES b = TOTAL_MINES g"
    and "pieces_left b = (BOARD_HEIGHT g * BOARD_WIDTH g) - TOTAL_MINES g"
    and "length (mine_cells b) = nat (TOTAL_MINES g)"
  using place_mines_inv [OF assms [unfolded GenerateBoard_cleared] cleared_fresh]
  by (simp_all add: same_globals_def cleared_mines)

lemma GenerateBoard_no_error:
  assumes "TOTAL_MINES g \<le> 0 \<or> (0 < BOARD_WIDTH g \<and> 0 < BOARD_HEIGHT g)"
  shows "GenerateBoard g rs \<noteq> Some (Inl e)"
  unfolding GenerateBoard_cleared
  using assms by (intro place_mines_no_error cleared_fresh) auto

lemma GenerateBoard_too_many:
  assumes "0 < BOARD_WIDTH g" "0 < BOARD_HEIGHT g" "BOARD_WIDTH g * BOARD_HEIGHT g < TOTAL_MINES g"
  shows "GenerateBoard g rs = None"
proof (cases "GenerateBoard g rs")
  case None
  then show ?thesis .
next
  case (Some r)
  show ?thesis
  proof (cases r)
    case (Inl e)
    with Some GenerateBoard_no_error [of g rs e] assms show ?thesis by simp
  next
    case (Inr b)
    with Some have gb: "GenerateBoard g rs = Some (Inr b)" by simp
    have "length (mine_cells b) \<le> length (coords b)" by (simp add: mine_cells_def)
    then have "nat (TOTAL_MINES g) \<le> nat (BOARD_WIDTH g) * nat (BOARD_HEIGHT g)"
      using GenerateBoard_inv [OF gb] by (simp add: length_coords)
    also have "\<dots> = nat (BOARD_WIDTH g * BOARD_HEIGHT g)"
      using assms(1,2) by (simp add: nat_mult_distrib)
    finally have "nat (TOTAL_MINES g) \<le> nat (BOARD_WIDTH g * BOARD_HEIGHT g)" .
    moreover have "0 < BOARD_WIDTH g * BOARD_HEIGHT g" using assms(1,2) by simp
    ultimately show ?thesis using assms(3) by linarith
  qed
qed

subsection \<open>More random numbers never hurt\<close>

lemma randint_append:
  "randint a b rs = Some (Inr (v, rest)) \<Longrightarrow> randint a b (rs @ e) = Some (Inr (v, rest @ e))"
  by (auto simp: randint_def split: if_splits list.splits)

lemma while_mine_append:
  "while_mine g x y rs = Some (Inr (x', y', rest)) \<Longrightarrow>
   while_mine g x y (rs @ e) = Some (Inr (x', y', rest @ e))"
proof (induction g x y rs rule: while_mine.induct)
  case (1 g x y rs)
  from "1.prems" obtain piece where p: "get_space g x y = Inr piece"
    by (subst (asm) while_mine.simps) (auto simp: rbind_eq_Inr)
  show ?case
  proof (cases "type piece = MINE")
    case False
    with "1.prems" p show ?thesis
      by (subst while_mine.simps, subst (asm) while_mine.simps) simp
  next
    case True
    from "1.prems" True p obtain y1 rs1 x1 rs2 where
      r: "randint 0 (BOARD_HEIGHT g - 1) rs = Some (Inr (y1, rs1))"
         "randint 0 (BOARD_WIDTH g - 1) rs1 = Some (Inr (x1, rs2))"
         "while_mine g x1 y1 rs2 = Some (Inr (x', y', rest))"
      by (subst (asm) while_mine.simps) (auto simp: rbind_eq_Inr)
    have p': "Some (get_space g x y) = Some (Inr piece)" using p by simp
    from "1.IH" [OF p' True r(1) refl r(2) refl r(3)]
    have "while_mine g x1 y1 (rs2 @ e) = Some (Inr (x', y', rest @ e))" .
    then show ?thesis
      using p True randint_append [OF r(1), of e] randint_append [OF r(2), of e]
      by (subst while_mine.simps) simp
  qed
qed

lemma place_mines_append:
  "place_mines n g rs = Some (Inr b) \<Longrightarrow> place_mines n g (rs @ e) = Some (Inr b)"
proof (induction n arbitrary: g rs)
  case 0
  then show ?case by simp
next
  case (Suc n)
  from Suc.prems obtain y rs1 x rs2 x' y' rs3 g' where
    r: "randint 0 (BOARD_HEIGHT g - 1) rs = Some (Inr (y, rs1))"
       "randint 0 (BOARD_WIDTH g - 1) rs1 = Some (Inr (x, rs2))" and
    w: "while_mine g x y rs2 = Some (Inr (x', y', rs3))" and
    p: "place_mine g x' y' = Inr g'" and
    m: "place_mines n g' rs3 = Some (Inr b)"
    unfolding place_mines_Suc by blast
  show ?case
    unfolding place_mines_Suc
    using randint_append [OF r(1), of e] randint_append [OF r(2), of e]
      while_mine_append [OF w, of e] p Suc.IH [OF m]
    by blast
qed

section \<open>Generation: mines placed, termination\<close>

text \<open>
  The random source as an infinite sequence of integers. \<^verbatim>\<open>GenerateBoard\<close> reads it in
  pairs, first the row and then the column. The source is fair on a board of \<open>w\<close>
  columns and \<open>h\<close> rows when it keeps drawing every space of the board, as
  \<^verbatim>\<open>random.randint\<close> does with probability 1. \<open>draws src i k\<close> are the \<open>k\<close> pairs of the
  source from the pair \<open>i\<close> on.
\<close>

definition fair_source :: "(nat \<Rightarrow> int) \<Rightarrow> int \<Rightarrow> int \<Rightarrow> bool" where
  "fair_source src w h \<longleftrightarrow>
     (\<forall>k x y. 0 \<le> x \<and> x < w \<and> 0 \<le> y \<and> y < h \<longrightarrow>
        (\<exists>j\<ge>k. src (2 * j) mod h = y \<and> src (2 * j + 1) mod w = x))"

fun draws :: "(nat \<Rightarrow> int) \<Rightarrow> nat \<Rightarrow> nat \<Rightarrow> int list" where
  "draws src i 0 = []"
| "draws src i (Suc k) = src (2 * i) # src (2 * i + 1) # draws src (Suc i) k"

text \<open>The globals at the start of the program for a board of two columns and one row
  with two mines, and for a board of negative width and height with one mine.\<close>

definition two_cells :: game where
  "two_cells = startup (Some 2) (Some 1) (Some 2) False"

definition negative_board :: game where
  "negative_board = startup (Some (- 1)) (Some (- 1)) (Some 1) False"

lemma draws_append: "draws src i (j + k) = draws src i j @ draws src (i + j) k"
  by (induction j arbitrary: i) simp_all

lemma draws_upt: "draws src i k = map src [2 * i..<2 * (i + k)]"
proof (induction k arbitrary: i)
  case 0
  show ?case by simp
next
  case (Suc k)
  have "[2 * i..<2 * (i + Suc k)] = 2 * i # (2 * i + 1) # [2 * Suc i..<2 * (Suc i + k)]"
    by (simp add: upt_conv_Cons)
  then show ?case using Suc [of "Suc i"] by simp
qed

lemma randint_Cons:
  "0 < n \<Longrightarrow> randint 0 (n - 1) (r # rs) = Some (Inr (r mod n, rs))"
  by (simp add: randint_def)

lemma while_mine_step:
  assumes "well_shaped g" and "in_bounds g x y" and "type (cell g x y) = MINE"
  shows "while_mine g x y (r1 # r2 # rs) =
     while_mine g (r2 mod BOARD_WIDTH g) (r1 mod BOARD_HEIGHT g) rs"
proof -
  have pos: "0 < BOARD_HEIGHT g" "0 < BOARD_WIDTH g" using assms(2) by (auto simp: in_bounds_def)
  show ?thesis
    using assms(3)
    by (subst while_mine.simps)
      (simp add: get_space_cell [OF assms(1,2)] randint_Cons [OF pos(1)] randint_Cons [OF pos(2)])
qed

lemma while_mine_fair:
  assumes ws: "well_shaped g" and free: "in_bounds g xf yf" "type (cell g xf yf) \<noteq> MINE"
    and hit: "src (2 * j) mod BOARD_HEIGHT g = yf" "src (2 * j + 1) mod BOARD_WIDTH g = xf"
    and le: "i \<le> j"
  shows "\<forall>x y. in_bounds g x y \<longrightarrow>
     (\<exists>k x' y'. \<forall>rest. while_mine g x y (draws src i k @ rest) = Some (Inr (x', y', rest)))"
  using le
proof (induction rule: inc_induct)
  case base
  show ?case
  proof (intro allI impI)
    fix x y assume ib: "in_bounds g x y"
    show "\<exists>k x' y'. \<forall>rest. while_mine g x y (draws src j k @ rest) = Some (Inr (x', y', rest))"
    proof (cases "type (cell g x y) = MINE")
      case False
      then have "\<forall>rest. while_mine g x y (draws src j 0 @ rest) = Some (Inr (x, y, rest))"
        using ws ib by (simp add: while_mine_hit)
      then show ?thesis by blast
    next
      case True
      have "\<forall>rest. while_mine g x y (draws src j (Suc 0) @ rest) = Some (Inr (xf, yf, rest))"
        using while_mine_step [OF ws ib True] hit while_mine_hit [OF ws free] by simp
      then show ?thesis by blast
    qed
  qed
next
  case (step n)
  show ?case
  proof (intro allI impI)
    fix x y assume ib: "in_bounds g x y"
    have pos: "0 < BOARD_HEIGHT g" "0 < BOARD_WIDTH g" using ib by (auto simp: in_bounds_def)
    show "\<exists>k x' y'. \<forall>rest. while_mine g x y (draws src n k @ rest) = Some (Inr (x', y', rest))"
    proof (cases "type (cell g x y) = MINE")
      case False
      then have "\<forall>rest. while_mine g x y (draws src n 0 @ rest) = Some (Inr (x, y, rest))"
        using ws ib by (simp add: while_mine_hit)
      then show ?thesis by blast
    next
      case True
      let ?x1 = "src (2 * n + 1) mod BOARD_WIDTH g" and ?y1 = "src (2 * n) mod BOARD_HEIGHT g"
      have "in_bounds g ?x1 ?y1" using pos by (simp add: in_bounds_def)
      with step.IH obtain k x' y' where
        k: "\<forall>rest. while_mine g ?x1 ?y1 (draws src (Suc n) k @ rest) = Some (Inr (x', y', rest))"
        by blast
      have "\<forall>rest. while_mine g x y (draws src n (Suc k) @ rest) = Some (Inr (x', y', rest))"
        using while_mine_step [OF ws ib True] k by simp
      then show ?thesis by blast
    qed
  qed
qed

lemma place_mines_fair:
  "fresh g \<Longrightarrow> length (mine_cells g) + n \<le> length (coords g) \<Longrightarrow>
   fair_source src (BOARD_WIDTH g) (BOARD_HEIGHT g) \<Longrightarrow>
   \<exists>k b. place_mines n g (draws src i k) = Some (Inr b)"
proof (induction n arbitrary: g i)
  case 0
  have "place_mines 0 g (draws src i 0) = Some (Inr g)" by simp
  then show ?case by blast
next
  case (Suc n)
  have ws: "well_shaped g" using Suc.prems(1) by (simp add: fresh_def)
  from Suc.prems(2) have "length (mine_cells g) < length (coords g)" by simp
  from free_cell [OF this] obtain xf yf where
    f: "in_bounds g xf yf" "type (cell g xf yf) \<noteq> MINE" by auto
  have pos: "0 < BOARD_HEIGHT g" "0 < BOARD_WIDTH g" using f(1) by (auto simp: in_bounds_def)
  from Suc.prems(3) f(1) obtain j where
    j: "Suc i \<le> j" "src (2 * j) mod BOARD_HEIGHT g = yf" "src (2 * j + 1) mod BOARD_WIDTH g = xf"
    unfolding fair_source_def in_bounds_def by blast
  let ?x = "src (2 * i + 1) mod BOARD_WIDTH g" and ?y = "src (2 * i) mod BOARD_HEIGHT g"
  have ib: "in_bounds g ?x ?y" using pos by (simp add: in_bounds_def)
  from while_mine_fair [OF ws f j(2,3,1)] ib obtain k1 x' y' where
    w: "\<And>rest. while_mine g ?x ?y (draws src (Suc i) k1 @ rest) = Some (Inr (x', y', rest))"
    by blast
  from while_mine_free [OF w [of "[]"] ws ib]
  have f': "in_bounds g x' y'" "type (cell g x' y') \<noteq> MINE" by simp_all
  from place_mine_placed [OF ws f'(1)] obtain g' where
    p: "place_mine g x' y' = Inr g'" and pl: "placed g x' y' g'" by auto
  have fr: "fresh g'" using pl f' Suc.prems(1) by (rule placed_fresh)
  have le: "length (mine_cells g') + n \<le> length (coords g')"
    using placed_mine_cells [OF pl f'] placed_coords [OF pl] Suc.prems(2) by simp
  have fair': "fair_source src (BOARD_WIDTH g') (BOARD_HEIGHT g')"
    using Suc.prems(3) pl by (simp add: placed_def)
  from Suc.IH [OF fr le fair', of "Suc i + k1"] obtain k2 b where
    m: "place_mines n g' (draws src (Suc i + k1) k2) = Some (Inr b)" by blast
  have d: "draws src i (Suc (k1 + k2)) =
      src (2 * i) # src (2 * i + 1) # draws src (Suc i) k1 @ draws src (Suc i + k1) k2"
    by (simp add: draws_append)
  have "place_mines (Suc n) g (draws src i (Suc (k1 + k2))) = Some (Inr b)"
    unfolding place_mines_Suc d
    using randint_Cons [OF pos(1)] randint_Cons [OF pos(2)] w p m by blast
  then show ?case by blast
qed

text \<open>
  Claim C3 says that the generation terminates with the requested mines whenever the
  number of mines is between 0 and the product of width and height. That product is
  also 1 for a width and a height of \<open>-1\<close>: on \<open>negative_board\<close> one mine is requested,
  and \<^verbatim>\<open>randint(0, -2)\<close> raises \<^verbatim>\<open>ValueError\<close> before it draws a number.
\<close>

theorem generation_counterexample:
  "0 \<le> TOTAL_MINES negative_board \<and>
   TOTAL_MINES negative_board \<le> BOARD_WIDTH negative_board * BOARD_HEIGHT negative_board \<and>
   GenerateBoard negative_board [0, 0] = Some (Inl ValueError)"
proof -
  have n: "TOTAL_MINES negative_board = 1" "BOARD_WIDTH negative_board = -1"
    "BOARD_HEIGHT negative_board = -1"
    by (simp_all add: negative_board_def startup_def Let_def)
  have "GenerateBoard negative_board [0, 0] = Some (Inl ValueError)"
    by (simp add: GenerateBoard_cleared n randint_def rbind_def)
  with n show ?thesis by simp
qed

text \<open>
  Claim C3, as the code has it. For a width and a height that are not negative and a
  number of mines between 0 and their product, \<open>GenerateBoard\<close> terminates on every fair
  random source: it returns after finitely many random numbers (more of them do not
  change the result). The board that it returns has exactly \<open>TOTAL_MINES\<close> mines, on
  distinct spaces. No random numbers make it raise an error.
\<close>

theorem GenerateBoard_terminates:
  assumes "0 \<le> BOARD_WIDTH g" and "0 \<le> BOARD_HEIGHT g" and "0 \<le> TOTAL_MINES g"
    and "TOTAL_MINES g \<le> BOARD_WIDTH g * BOARD_HEIGHT g"
    and "fair_source src (BOARD_WIDTH g) (BOARD_HEIGHT g)"
  shows "(\<exists>n b. (\<forall>m\<ge>n. GenerateBoard g (map src [0..<m]) = Some (Inr b)) \<and>
            int (length (mine_cells b)) = TOTAL_MINES g \<and> distinct (mine_cells b)) \<and>
         (\<forall>rs e. GenerateBoard g rs \<noteq> Some (Inl e))"
proof (rule conjI)
  have "nat (TOTAL_MINES g) \<le> nat (BOARD_WIDTH g * BOARD_HEIGHT g)"
    using assms(4) by simp
  also have "\<dots> = nat (BOARD_WIDTH g) * nat (BOARD_HEIGHT g)"
    using assms(1,2) by (simp add: nat_mult_distrib)
  finally have le: "length (mine_cells (cleared g)) + nat (TOTAL_MINES g) \<le> length (coords (cleared g))"
    by (simp add: cleared_mines length_coords)
  have "fair_source src (BOARD_WIDTH (cleared g)) (BOARD_HEIGHT (cleared g))"
    using assms(5) by simp
  from place_mines_fair [OF cleared_fresh le this, of 0] obtain k b where
    "place_mines (nat (TOTAL_MINES g)) (cleared g) (draws src 0 k) = Some (Inr b)" by blast
  then have gb: "GenerateBoard g (map src [0..<2 * k]) = Some (Inr b)"
    by (simp add: GenerateBoard_cleared draws_upt)
  have "GenerateBoard g (map src [0..<m]) = Some (Inr b)" if "2 * k \<le> m" for m
  proof -
    have "map src [0..<m] = map src [0..<2 * k] @ map src [2 * k..<m]"
      using that by (metis le0 map_append upt_add_eq_append le_Suc_ex)
    then show ?thesis
      using place_mines_append [OF gb [unfolded GenerateBoard_cleared]]
      by (simp add: GenerateBoard_cleared)
  qed
  moreover have "int (length (mine_cells b)) = TOTAL_MINES g"
    using GenerateBoard_inv(6) [OF gb] assms(3) by simp
  moreover have "distinct (mine_cells b)" by (rule distinct_mine_cells)
  ultimately show "\<exists>n b. (\<forall>m\<ge>n. GenerateBoard g (map src [0..<m]) = Some (Inr b)) \<and>
            int (length (mine_cells b)) = TOTAL_MINES g \<and> distinct (mine_cells b)"
    by blast
next
  have "TOTAL_MINES g \<le> 0 \<or> (0 < BOARD_WIDTH g \<and> 0 < BOARD_HEIGHT g)"
  proof (cases "TOTAL_MINES g \<le> 0")
    case True
    then show ?thesis by simp
  next
    case False
    with assms(4) have "0 < BOARD_WIDTH g * BOARD_HEIGHT g" by simp
    with assms(1,2) have "0 < BOARD_WIDTH g \<and> 0 < BOARD_HEIGHT g"
      by (cases "BOARD_WIDTH g = 0"; cases "BOARD_HEIGHT g = 0") simp_all
    then show ?thesis by simp
  qed
  then show "\<forall>rs e. GenerateBoard g rs \<noteq> Some (Inl e)"
    by (intro allI GenerateBoard_no_error)
qed

theorem GenerateBoard_terminates_witness:
  "0 \<le> BOARD_WIDTH two_cells \<and> 0 \<le> BOARD_HEIGHT two_cells \<and> 0 \<le> TOTAL_MINES two_cells \<and>
   TOTAL_MINES two_cells \<le> BOARD_WIDTH two_cells * BOARD_HEIGHT two_cells \<and>
   fair_source (\<lambda>i. int (i div 2)) (BOARD_WIDTH two_cells) (BOARD_HEIGHT two_cells) \<and>
   GenerateBoard two_cells (map (\<lambda>i. int (i div 2)) [0..<4]) =
     Some (Inr \<lparr>BOARD_WIDTH = 2, BOARD_HEIGHT = 1, TOTAL_MINES = 2, PRINT_DEBUG_INFO = False,
       spaces = [[\<lparr>type = MINE, count = 1, flag = False\<rparr>],
                 [\<lparr>type = MINE, count = 1, flag = False\<rparr>]],
       pieces_left = 0, babymode = False, game_state = InProgress\<rparr>) \<and>
   (\<exists>n b. GenerateBoard two_cells (map (\<lambda>i. int (i div 2)) [0..<n]) = Some (Inr b) \<and>
      int (length (mine_cells b)) = TOTAL_MINES two_cells \<and> distinct (mine_cells b))"
proof -
  have t: "TOTAL_MINES two_cells = 2" "BOARD_WIDTH two_cells = 2" "BOARD_HEIGHT two_cells = 1"
    by (simp_all add: two_cells_def startup_def Let_def)
  have h1: "0 \<le> BOARD_WIDTH two_cells" by (simp add: t)
  have h2: "0 \<le> BOARD_HEIGHT two_cells" by (simp add: t)
  have h3: "0 \<le> TOTAL_MINES two_cells" by (simp add: t)
  have h4: "TOTAL_MINES two_cells \<le> BOARD_WIDTH two_cells * BOARD_HEIGHT two_cells"
    by (simp add: t)
  have h5: "fair_source (\<lambda>i. int (i div 2)) (BOARD_WIDTH two_cells) (BOARD_HEIGHT two_cells)"
    unfolding fair_source_def t
  proof (intro allI impI)
    fix k :: nat and x y :: int
    assume a: "0 \<le> x \<and> x < 2 \<and> 0 \<le> y \<and> y < 1"
    have "k \<le> 2 * k + nat x" by simp
    moreover have "int (2 * (2 * k + nat x) div 2) mod 1 = y" using a by simp
    moreover have "int ((2 * (2 * k + nat x) + 1) div 2) mod 2 = x" using a by simp
    ultimately show "\<exists>j\<ge>k. int (2 * j div 2) mod 1 = y \<and> int ((2 * j + 1) div 2) mod 2 = x"
      by blast
  qed
  have h6: "GenerateBoard two_cells (map (\<lambda>i. int (i div 2)) [0..<4]) =
     Some (Inr \<lparr>BOARD_WIDTH = 2, BOARD_HEIGHT = 1, TOTAL_MINES = 2, PRINT_DEBUG_INFO = False,
       spaces = [[\<lparr>type = MINE, count = 1, flag = False\<rparr>],
                 [\<lparr>type = MINE, count = 1, flag = False\<rparr>]],
       pieces_left = 0, babymode = False, game_state = InProgress\<rparr>)" by code_simp
  note t = GenerateBoard_terminates [OF h1 h2 h3 h4 h5]
  from t have c: "\<exists>n b. GenerateBoard two_cells (map (\<lambda>i. int (i div 2)) [0..<n]) = Some (Inr b) \<and>
      int (length (mine_cells b)) = TOTAL_MINES two_cells \<and> distinct (mine_cells b)"
    by blast
  from h1 h2 h3 h4 h5 h6 c show ?thesis by (intro conjI)
qed

text \<open>
  Claim C7. The code at the start of the program clamps 100 mines on a board of 5 by 5
  to 25. \<open>NewGame\<close> with the same request on the default game (20 by 20, 60 mines)
  keeps the 60 mines when \<open>PRINT_DEBUG_INFO\<close> is off and sets 500 mines when it is on;
  in both cases \<open>GenerateBoard\<close> then never returns, whatever the random numbers.
\<close>

theorem NewGame_does_not_clamp:
  "TOTAL_MINES (startup (Some 5) (Some 5) (Some 100) debug) = 25 \<and>
   TOTAL_MINES (startup None None None debug) = 60 \<and>
   NewGame (startup None None None False) 5 5 100 rs =
     GenerateBoard ((startup None None None False)\<lparr>BOARD_WIDTH := 5, BOARD_HEIGHT := 5\<rparr>) rs \<and>
   NewGame (startup None None None True) 5 5 100 rs =
     GenerateBoard ((startup None None None True)
       \<lparr>BOARD_WIDTH := 5, BOARD_HEIGHT := 5, TOTAL_MINES := 500\<rparr>) rs \<and>
   NewGame (startup None None None False) 5 5 100 rs = None \<and>
   NewGame (startup None None None True) 5 5 100 rs = None"
proof -
  have s: "TOTAL_MINES (startup None None None debug) = 60"
    "PRINT_DEBUG_INFO (startup None None None debug) = debug" for debug
    by (simp_all add: startup_def Let_def)
  have 1: "NewGame (startup None None None False) 5 5 100 rs =
     GenerateBoard ((startup None None None False)\<lparr>BOARD_WIDTH := 5, BOARD_HEIGHT := 5\<rparr>) rs"
    by (simp add: NewGame_def Let_def s)
  have 2: "NewGame (startup None None None True) 5 5 100 rs =
     GenerateBoard ((startup None None None True)
       \<lparr>BOARD_WIDTH := 5, BOARD_HEIGHT := 5, TOTAL_MINES := 500\<rparr>) rs"
    by (simp add: NewGame_def Let_def s)
  have 3: "GenerateBoard ((startup None None None False)\<lparr>BOARD_WIDTH := 5, BOARD_HEIGHT := 5\<rparr>) rs = None"
    by (rule GenerateBoard_too_many) (simp_all add: s)
  have 4: "GenerateBoard ((startup None None None True)
       \<lparr>BOARD_WIDTH := 5, BOARD_HEIGHT := 5, TOTAL_MINES := 500\<rparr>) rs = None"
    by (rule GenerateBoard_too_many) simp_all
  have 5: "TOTAL_MINES (startup (Some 5) (Some 5) (Some 100) debug) = 25"
    by (simp add: startup_def Let_def)
  from 1 2 3 4 5 s(1) show ?thesis by simp
qed

section \<open>The counts during the game\<close>

text \<open>
  The games that a player reaches from the board \<open>b\<close>: by left and right clicks on
  spaces of the board and by the button for the baby mode. A left click may be cut
  short by \<^verbatim>\<open>RecursionError\<close>; the game then goes on from the state at the raise.
\<close>

inductive_set plays :: "game \<Rightarrow> game set" for b :: game where
  start: "b \<in> plays b"
| left_click: "h \<in> plays b \<Longrightarrow> in_bounds h x y \<Longrightarrow> final (ClickSpace d h x y) \<in> plays b"
| right_click: "h \<in> plays b \<Longrightarrow> in_bounds h x y \<Longrightarrow> RightClickSpace h x y = Inr h' \<Longrightarrow>
     h' \<in> plays b"
| baby_mode: "h \<in> plays b \<Longrightarrow> SetBabyMode h \<in> plays b"

text \<open>\<open>h\<close> has the shape, the counts and the mines of \<open>b\<close>.\<close>

definition same_counts :: "game \<Rightarrow> game \<Rightarrow> bool" where
  "same_counts b h \<longleftrightarrow>
     well_shaped h \<and> BOARD_WIDTH h = BOARD_WIDTH b \<and> BOARD_HEIGHT h = BOARD_HEIGHT b \<and>
     (\<forall>x y. in_bounds b x y \<longrightarrow>
        count (cell h x y) = count (cell b x y) \<and>
        (type (cell h x y) = MINE \<longleftrightarrow> type (cell b x y) = MINE))"

text \<open>The board of two columns and one row with one mine.\<close>

definition one_of_two :: game where
  "one_of_two = startup (Some 2) (Some 1) (Some 1) False"

lemma same_counts_bounds: "same_counts b h \<Longrightarrow> in_bounds h x y = in_bounds b x y"
  by (simp add: same_counts_def in_bounds_def)

lemma same_counts_marks:
  assumes "same_counts b h" and "marks h R h'" and "R \<subseteq> hidden h"
  shows "same_counts b h'"
proof -
  have "count (cell h' x y) = count (cell b x y) \<and>
      (type (cell h' x y) = MINE \<longleftrightarrow> type (cell b x y) = MINE)" if ib: "in_bounds b x y" for x y
  proof -
    have ih: "in_bounds h x y" using same_counts_bounds [OF assms(1)] ib by simp
    have c: "count (cell h x y) = count (cell b x y)"
      "type (cell h x y) = MINE \<longleftrightarrow> type (cell b x y) = MINE"
      using assms(1) ib by (simp_all add: same_counts_def)
    show ?thesis
    proof (cases "(x, y) \<in> R")
      case True
      then have "type (cell h x y) = HIDDEN" using assms(3) by (auto simp: hidden_def)
      with c True show ?thesis using marks_cell [OF assms(2) ih] by simp
    next
      case False
      with c show ?thesis using marks_cell [OF assms(2) ih] by simp
    qed
  qed
  then show ?thesis using assms(1,2) by (simp add: same_counts_def marks_def)
qed

lemma click_marks:
  assumes "well_shaped h" and "in_bounds h x y"
  shows "\<exists>R. R \<subseteq> hidden h \<and> marks h R (final (ClickSpace d h x y))"
proof -
  have refl: "marks h {} h" using assms(1) by (rule marks_refl)
  have over: "marks h {} (GameOver h x y)" using refl by (simp add: marks_def GameOver_def)
  have rev: "\<exists>R. R \<subseteq> hidden h \<and> marks h R (final (RevealEmpty d h x y))"
  proof (cases "RevealEmpty d h x y")
    case (Inr g')
    have "reveals h (flood (hidden h) (zero h) (x, y)) g'"
      using assms(1) Inr by (rule RevealEmpty_reveals)
    then have "marks h (flood (hidden h) (zero h) (x, y)) (final (RevealEmpty d h x y))"
      using Inr by (simp add: reveals_def)
    moreover have "flood (hidden h) (zero h) (x, y) \<subseteq> hidden h" by (rule flood_subset)
    ultimately show ?thesis by blast
  next
    case (Inl q)
    obtain e k where q: "q = (e, k)" by (cases q)
    from RevealEmpty_raises [OF assms(1) Inl [unfolded q]] have "interrupted h k" by simp
    then obtain R where "R \<subseteq> hidden h" "marks h R k" unfolding interrupted_def by blast
    then show ?thesis using Inl q by auto
  qed
  show ?thesis
    unfolding ClickSpace_cell [OF assms]
    using refl over rev by (auto split: if_splits)
qed

lemma same_counts_plays:
  assumes "well_shaped b" and "h \<in> plays b"
  shows "same_counts b h"
  using assms(2)
proof (induction rule: plays.induct)
  case start
  show ?case using assms(1) by (simp add: same_counts_def)
next
  case (left_click h x y d)
  have w: "well_shaped h" using left_click.IH by (simp add: same_counts_def)
  from click_marks [OF w left_click.hyps(2), of d] obtain R where
    R: "R \<subseteq> hidden h" "marks h R (final (ClickSpace d h x y))" by blast
  from left_click.IH R(2,1) show ?case by (rule same_counts_marks)
next
  case (right_click h x y h')
  have w: "well_shaped h" using right_click.IH by (simp add: same_counts_def)
  have ib: "in_bounds b x y" using same_counts_bounds [OF right_click.IH] right_click.hyps(2) by simp
  show ?case
  proof (cases "type (cell h x y) = MINE \<or> type (cell h x y) = HIDDEN")
    case False
    with right_click show ?thesis by (simp add: RightClickSpace_cell [OF w right_click.hyps(2)])
  next
    case True
    then have h': "h' = put_space h x y ((cell h x y)\<lparr>flag := \<not> flag (cell h x y)\<rparr>)"
      using right_click.hyps(3) by (simp add: RightClickSpace_cell [OF w right_click.hyps(2)])
    have w': "well_shaped h'" unfolding h' using w by (rule well_shaped_put)
    have "count (cell h' a c) = count (cell b a c) \<and>
        (type (cell h' a c) = MINE \<longleftrightarrow> type (cell b a c) = MINE)" if ab: "in_bounds b a c" for a c
    proof -
      have ih: "in_bounds h a c" using same_counts_bounds [OF right_click.IH] ab by simp
      have old: "count (cell h a c) = count (cell b a c)"
        "type (cell h a c) = MINE \<longleftrightarrow> type (cell b a c) = MINE"
        using right_click.IH ab unfolding same_counts_def by blast+
      show ?thesis
      proof (cases "a = x \<and> c = y")
        case True
        then have "cell h' a c = (cell h a c)\<lparr>flag := \<not> flag (cell h a c)\<rparr>"
          unfolding h' using cell_put [OF w right_click.hyps(2) right_click.hyps(2)] by simp
        with old show ?thesis by simp
      next
        case False
        then have "cell h' a c = cell h a c"
          unfolding h' using cell_put [OF w right_click.hyps(2) ih] by simp
        with old show ?thesis by simp
      qed
    qed
    moreover have "BOARD_WIDTH h' = BOARD_WIDTH b" "BOARD_HEIGHT h' = BOARD_HEIGHT b"
      using right_click.IH unfolding h' same_counts_def by simp_all
    ultimately show ?thesis using w' unfolding same_counts_def by blast
  qed
next
  case (baby_mode h)
  have "well_shaped (SetBabyMode h) = well_shaped h" "cell (SetBabyMode h) = cell h"
    "BOARD_WIDTH (SetBabyMode h) = BOARD_WIDTH h" "BOARD_HEIGHT (SetBabyMode h) = BOARD_HEIGHT h"
    by (simp_all add: SetBabyMode_def well_shaped_def cell_def fun_eq_iff)
  with baby_mode.IH show ?case by (simp add: same_counts_def)
qed

lemma same_counts_adjacent:
  assumes "same_counts b h"
  shows "adjacent_mines h x y = adjacent_mines b x y"
proof -
  have "(in_bounds h a c \<and> type (cell h a c) = MINE) = (in_bounds b a c \<and> type (cell b a c) = MINE)"
    for a c
    using assms same_counts_bounds [OF assms, of a c] by (auto simp: same_counts_def)
  then show ?thesis by (simp add: adjacent_mines_def)
qed

lemma same_counts_spaces:
  assumes "well_shaped b" and "same_counts b h"
  shows "map (map count) (spaces h) = map (map count) (spaces b)"
proof (rule nth_equalityI)
  show "length (map (map count) (spaces h)) = length (map (map count) (spaces b))"
    using assms by (simp add: well_shaped_def same_counts_def)
next
  fix i assume "i < length (map (map count) (spaces h))"
  then have i: "i < nat (BOARD_WIDTH b)" "i < length (spaces h)" "i < length (spaces b)"
    using assms by (simp_all add: well_shaped_def same_counts_def)
  have l: "length (spaces b ! i) = nat (BOARD_HEIGHT b)" "length (spaces h ! i) = nat (BOARD_HEIGHT b)"
    using assms i by (simp_all add: well_shaped_def same_counts_def list_all_length)
  have "map count (spaces h ! i) = map count (spaces b ! i)"
  proof (rule nth_equalityI)
    show "length (map count (spaces h ! i)) = length (map count (spaces b ! i))" using l by simp
  next
    fix j assume "j < length (map count (spaces h ! i))"
    then have j: "j < nat (BOARD_HEIGHT b)" using l by simp
    then have "in_bounds b (int i) (int j)" using i(1) by (auto simp: in_bounds_def)
    then have "count (cell h (int i) (int j)) = count (cell b (int i) (int j))"
      using assms(2) by (simp add: same_counts_def)
    then show "map count (spaces h ! i) ! j = map count (spaces b ! i) ! j"
      using j l by (simp add: cell_def)
  qed
  then show "map (map count) (spaces h) ! i = map (map count) (spaces b) ! i"
    using i by simp
qed

lemma same_counts_mines:
  assumes "same_counts b h"
  shows "mine_cells h = mine_cells b"
proof -
  have c: "coords h = coords b" using assms by (simp add: coords_def same_counts_def)
  show ?thesis
    unfolding mine_cells_def c
    using assms by (intro filter_cong refl) (auto simp: set_coords same_counts_def)
qed

text \<open>
  Claim C2. On every board that \<open>GenerateBoard\<close> returns, and on every game that the
  clicks of a player reach from it, the count of every space of the board is the number
  of mines on the spaces around it. The counts and the mines are those of the generated
  board: no left click (also one cut short by \<^verbatim>\<open>RecursionError\<close>) and no right click
  changes them.
\<close>

theorem counts_exact_and_kept:
  assumes "GenerateBoard g rs = Some (Inr b)" and "h \<in> plays b"
  shows "(\<forall>x y. in_bounds h x y \<longrightarrow> count (cell h x y) = int (adjacent_mines h x y)) \<and>
         map (map count) (spaces h) = map (map count) (spaces b) \<and>
         mine_cells h = mine_cells b"
proof -
  have fr: "fresh b" using assms(1) by (rule GenerateBoard_inv)
  then have w: "well_shaped b" and ok: "counts_ok b" by (simp_all add: fresh_def)
  have sc: "same_counts b h" using w assms(2) by (rule same_counts_plays)
  have "count (cell h x y) = int (adjacent_mines h x y)" if "in_bounds h x y" for x y
  proof -
    have ib: "in_bounds b x y" using same_counts_bounds [OF sc] that by simp
    then have "count (cell b x y) = int (adjacent_mines b x y)"
      using ok by (simp add: counts_ok_iff)
    moreover have "count (cell h x y) = count (cell b x y)"
      using sc ib by (simp add: same_counts_def)
    ultimately show ?thesis using same_counts_adjacent [OF sc, of x y] by simp
  qed
  then show ?thesis
    using same_counts_spaces [OF w sc] same_counts_mines [OF sc] by simp
qed

theorem counts_exact_and_kept_witness:
  "GenerateBoard one_of_two [0, 0] =
     Some (Inr \<lparr>BOARD_WIDTH = 2, BOARD_HEIGHT = 1, TOTAL_MINES = 1, PRINT_DEBUG_INFO = False,
       spaces = [[\<lparr>type = MINE, count = 0, flag = False\<rparr>],
                 [\<lparr>type = HIDDEN, count = 1, flag = False\<rparr>]],
       pieces_left = 1, babymode = False, game_state = InProgress\<rparr>) \<and>
   \<lparr>BOARD_WIDTH = 2, BOARD_HEIGHT = 1, TOTAL_MINES = 1, PRINT_DEBUG_INFO = False,
       spaces = [[\<lparr>type = MINE, count = 0, flag = False\<rparr>],
                 [\<lparr>type = EMPTY, count = 1, flag = False\<rparr>]],
       pieces_left = 0, babymode = False, game_state = Won\<rparr>
     \<in> plays \<lparr>BOARD_WIDTH = 2, BOARD_HEIGHT = 1, TOTAL_MINES = 1, PRINT_DEBUG_INFO = False,
       spaces = [[\<lparr>type = MINE, count = 0, flag = False\<rparr>],
                 [\<lparr>type = HIDDEN, count = 1, flag = False\<rparr>]],
       pieces_left = 1, babymode = False, game_state = InProgress\<rparr> \<and>
   count (cell \<lparr>BOARD_WIDTH = 2, BOARD_HEIGHT = 1, TOTAL_MINES = 1, PRINT_DEBUG_INFO = False,
       spaces = [[\<lparr>type = MINE, count = 0, flag = False\<rparr>],
                 [\<lparr>type = EMPTY, count = 1, flag = False\<rparr>]],
       pieces_left = 0, babymode = False, game_state = Won\<rparr> 1 0) =
     int (adjacent_mines \<lparr>BOARD_WIDTH = 2, BOARD_HEIGHT = 1, TOTAL_MINES = 1,
       PRINT_DEBUG_INFO = False,
       spaces = [[\<lparr>type = MINE, count = 0, flag = False\<rparr>],
                 [\<lparr>type = EMPTY, count = 1, flag = False\<rparr>]],
       pieces_left = 0, babymode = False, game_state = Won\<rparr> 1 0) \<and>
   mine_cells \<lparr>BOARD_WIDTH = 2, BOARD_HEIGHT = 1, TOTAL_MINES = 1, PRINT_DEBUG_INFO = False,
       spaces = [[\<lparr>type = MINE, count = 0, flag = False\<rparr>],
                 [\<lparr>type = EMPTY, count = 1, flag = False\<rparr>]],
       pieces_left = 0, babymode = False, game_state = Won\<rparr> = [(0, 0)]"
proof -
  let ?b = "\<lparr>BOARD_WIDTH = 2, BOARD_HEIGHT = 1, TOTAL_MINES = 1, PRINT_DEBUG_INFO = False,
       spaces = [[\<lparr>type = MINE, count = 0, flag = False\<rparr>],
                 [\<lparr>type = HIDDEN, count = 1, flag = False\<rparr>]],
       pieces_left = 1, babymode = False, game_state = InProgress\<rparr>"
  let ?h = "\<lparr>BOARD_WIDTH = 2, BOARD_HEIGHT = 1, TOTAL_MINES = 1, PRINT_DEBUG_INFO = False,
       spaces = [[\<lparr>type = MINE, count = 0, flag = False\<rparr>],
                 [\<lparr>type = EMPTY, count = 1, flag = False\<rparr>]],
       pieces_left = 0, babymode = False, game_state = Won\<rparr>"
  have h1: "GenerateBoard one_of_two [0, 0] = Some (Inr ?b)" by code_simp
  have ib: "in_bounds ?b 1 0" by code_simp
  have cl: "final (ClickSpace 0 ?b 1 0) = ?h" by code_simp
  have h2: "?h \<in> plays ?b"
    using plays.left_click [OF plays.start ib, of 0] unfolding cl .
  have ih: "in_bounds ?h 1 0" by code_simp
  have m: "mine_cells ?b = [(0, 0)]" by code_simp
  note t = counts_exact_and_kept [OF h1 h2]
  from t ih have a: "count (cell ?h 1 0) = int (adjacent_mines ?h 1 0)" by blast
  from t m have b: "mine_cells ?h = [(0, 0)]" by simp
  from h1 h2 a b show ?thesis by (intro conjI)
qed

end
